theory Spec2Isabelle
  imports Main "HOL-Library.Sublist"
begin

section \<open>Python strings\<close>

text \<open>
  A Python \<open>str\<close> is a sequence of Unicode code points; \<open>len\<close>, \<open>strip\<close>, \<open>splitlines\<close>
  and \<open>replace\<close> all work on code points. A string is therefore a list of code points,
  and \<open>u\<close> reads an ASCII literal as such a string.
\<close>

type_synonym ustr = "nat list"

definition u :: "string \<Rightarrow> ustr" where
  "u s = map of_char s"

text \<open>
  \<open>str.isspace\<close> of one character, which is what \<open>str.strip()\<close> without argument
  removes: the ASCII white space \<open>0x09-0x0D\<close>, \<open>0x1C-0x1F\<close>, \<open>0x20\<close>, and \<open>0x85\<close>,
  \<open>0xA0\<close>, \<open>0x1680\<close>, \<open>0x2000-0x200A\<close>, \<open>0x2028\<close>, \<open>0x2029\<close>, \<open>0x202F\<close>, \<open>0x205F\<close>,
  \<open>0x3000\<close>.
\<close>

definition isspace :: "nat \<Rightarrow> bool" where
  "isspace c \<longleftrightarrow>
     c \<in> {9, 10, 11, 12, 13, 28, 29, 30, 31, 32, 133, 160, 5760, 8232, 8233, 8239, 8287, 12288}
     \<or> (8192 \<le> c \<and> c \<le> 8202)"

text \<open>
  The line boundaries of \<open>str.splitlines\<close>: \<open>\n\<close>, \<open>\v\<close>, \<open>\f\<close>, \<open>\r\<close>, \<open>0x1C\<close>, \<open>0x1D\<close>,
  \<open>0x1E\<close>, \<open>0x85\<close>, \<open>0x2028\<close>, \<open>0x2029\<close> (and \<open>\r\n\<close>, taken as one boundary).
\<close>

definition is_linebreak :: "nat \<Rightarrow> bool" where
  "is_linebreak c \<longleftrightarrow> c \<in> {10, 11, 12, 13, 28, 29, 30, 133, 8232, 8233}"

text \<open>\<open>strip\<close> removes the leading and the trailing characters that satisfy \<open>P\<close>.\<close>

definition strip_with :: "(nat \<Rightarrow> bool) \<Rightarrow> ustr \<Rightarrow> ustr" where
  "strip_with P s = rev (dropWhile P (rev (dropWhile P s)))"

text \<open>\<open>s.strip()\<close>\<close>

definition strip :: "ustr \<Rightarrow> ustr" where
  "strip s = strip_with isspace s"

text \<open>\<open>s.strip(chars)\<close>\<close>

definition strip_chars :: "ustr \<Rightarrow> ustr \<Rightarrow> ustr" where
  "strip_chars chars s = strip_with (\<lambda>c. c \<in> set chars) s"

text \<open>
  \<open>s.splitlines()\<close>: \<open>line\<close> is the part of the current line read so far. A line is
  closed by a boundary; the rest after the last boundary is a line only when it is not
  empty, so a final boundary adds no empty line.
\<close>

fun splitlines_from :: "ustr \<Rightarrow> ustr \<Rightarrow> ustr list" where
  "splitlines_from line [] = (if line = [] then [] else [line])"
| "splitlines_from line [c] = (if is_linebreak c then [line] else [line @ [c]])"
| "splitlines_from line (c # d # s) =
     (if c = 13 \<and> d = 10 then line # splitlines_from [] s
      else if is_linebreak c then line # splitlines_from [] (d # s)
      else splitlines_from (line @ [c]) (d # s))"

definition splitlines :: "ustr \<Rightarrow> ustr list" where
  "splitlines s = splitlines_from [] s"

text \<open>\<open>sep.join(ls)\<close>\<close>

fun str_join :: "ustr \<Rightarrow> ustr list \<Rightarrow> ustr" where
  "str_join sep [] = []"
| "str_join sep [l] = l"
| "str_join sep (l # m # ls) = l @ sep @ str_join sep (m # ls)"

text \<open>
  \<open>s.replace(old, new)\<close>: every occurrence of \<open>old\<close>, found from the left and not
  overlapping, is replaced; an empty \<open>old\<close> puts \<open>new\<close> before every character and at
  the end.
\<close>

function str_replace :: "ustr \<Rightarrow> ustr \<Rightarrow> ustr \<Rightarrow> ustr" where
  "str_replace [] new s = new @ concat (map (\<lambda>c. c # new) s)"
| "str_replace (p # old) new [] = []"
| "str_replace (p # old) new (c # s) =
     (if prefix (p # old) (c # s)
      then new @ str_replace (p # old) new (drop (length old) s)
      else c # str_replace (p # old) new s)"
  by pat_completeness auto
termination
  by (relation "measure (\<lambda>(old, new, s). length s)") auto

text \<open>
  Replacing one character \<open>p\<close> by the string \<open>new\<close>, character by character: what
  \<open>str_replace\<close> is proved to do for a pattern of length one.
\<close>

definition subst_char :: "nat \<Rightarrow> ustr \<Rightarrow> ustr \<Rightarrow> ustr" where
  "subst_char p new s = concat (map (\<lambda>c. if c = p then new else [c]) s)"

section \<open>The manual lists\<close>

text \<open>
  \<^verbatim>\<open>X_list = [ln.strip() for ln in x_manual.splitlines() if ln.strip()]\<close>
  (and the same for \<open>Y_list\<close>).
\<close>

definition manual_list :: "ustr \<Rightarrow> ustr list" where
  "manual_list manual = [strip ln. ln \<leftarrow> splitlines manual, strip ln \<noteq> []]"

section \<open>The query of a pair\<close>

text \<open>
  \<^verbatim>\<open>query = question_template.replace("X", x_word).replace("Y", y_word)\<close>
\<close>

definition build_query :: "ustr \<Rightarrow> ustr \<Rightarrow> ustr \<Rightarrow> ustr" where
  "build_query question_template x_word y_word =
     str_replace (u ''Y'') y_word (str_replace (u ''X'') x_word question_template)"

text \<open>
  The strings at which \<open>str.splitlines\<close> ends a line: one line-boundary character, or
  \<open>\r\n\<close>. Used to state what the lists are for an input given as lines joined by such
  a string.
\<close>

definition is_line_boundary :: "ustr \<Rightarrow> bool" where
  "is_line_boundary sep \<longleftrightarrow>
     (case sep of [c] \<Rightarrow> is_linebreak c | [c, d] \<Rightarrow> c = 13 \<and> d = 10 | _ \<Rightarrow> False)"

section \<open>The backend, the inputs and the page\<close>

text \<open>
  The Python values that \<open>json.loads\<close> returns and that \<open>resp.parsed\<close> may hold: \<open>None\<close>,
  \<open>bool\<close>, \<open>int\<close>, \<open>float\<close>, \<open>str\<close>, \<open>list\<close> and \<open>dict\<close> (a dict in insertion order). A
  float is kept as a numeric literal that denotes it; no claim computes with floats.
\<close>

datatype pyval =
    PNone | PBool bool | PInt int | PFloat ustr | PStr ustr
  | PList "pyval list" | PDict "(ustr \<times> pyval) list"

text \<open>\<open>isinstance(v, list)\<close>\<close>

definition is_list :: "pyval \<Rightarrow> bool" where
  "is_list v = (case v of PList xs \<Rightarrow> True | _ \<Rightarrow> False)"

text \<open>An exception raised by a call of the backend, with its message.\<close>

datatype error = BackendError ustr

text \<open>
  The two configurations \<open>generate_content\<close> is called with: \<open>gen_config\<close> (the Google
  Search tool, lines 40-41) and the JSON list configuration of \<open>list_gen\<close> (lines 56-59).
\<close>

datatype config = Grounded | JsonList

record request =
  model :: ustr
  contents :: ustr
  config :: config

text \<open>
  What the code reads of a response: \<open>getattr(resp, "parsed", None)\<close> (\<open>PNone\<close> when the
  attribute is missing or unset) and \<open>resp.text\<close>, which may be \<open>None\<close>.
\<close>

record response =
  parsed :: pyval
  rtext :: "ustr option"

text \<open>
  \<open>client.models.generate_content\<close>: it returns a response or raises. The backend is not
  part of the repository, so it is a parameter: a function of the requests sent before
  and of the request, which lets a backend fail at its k-th call.
\<close>

type_synonym backend = "request list \<Rightarrow> request \<Rightarrow> error + response"

text \<open>
  The library functions the page calls are parameters too: the backend, \<open>json.loads\<close>
  (\<open>None\<close> when it raises; the code catches every \<open>Exception\<close> of it, line 70) and
  \<open>str\<close>. The general statements below hold for every environment.
\<close>

record env =
  client :: backend
  json_loads :: "ustr \<Rightarrow> pyval option"
  str_of :: "pyval \<Rightarrow> ustr"

text \<open>The radio button of lines 23-27: generated lists or manual lists.\<close>

datatype mode = Generated | Manual

text \<open>
  The widgets of the page as the script reads them in one run: \<open>api_key\<close> is the key
  after the fallback to the secrets (lines 17-20), \<open>run\<close> the button of line 118.
\<close>

record inputs =
  api_key :: ustr
  mode :: mode
  model_name :: ustr
  x_topics :: ustr
  y_topics :: ustr
  x_manual :: ustr
  y_manual :: ustr
  question_template :: ustr
  run :: bool

text \<open>
  One rendered block of the run loop (lines 157-196): the indices \<open>xi\<close>, \<open>yi\<close> that name
  the copy button, the two words, the query sent and the answer shown.
\<close>

record combination =
  res_xi :: nat
  res_yi :: nat
  res_x :: ustr
  res_y :: ustr
  res_query :: ustr
  res_answer :: ustr

text \<open>
  What the page shows, in order: \<open>st.error\<close> (line 123), \<open>st.warning\<close> (line 138),
  \<open>st.success\<close> with the two lengths (line 141), the divider (line 142), the progress bar
  created at 0 (line 146), the heading of an \<open>X\<close> (line 154), a result block, an update of
  the progress bar (line 199), the final \<open>st.success\<close> (line 201) and \<open>st.balloons\<close> (line
  202). The progress bar is set to \<open>int(done / total * 100)\<close>; the event keeps \<open>done\<close> and
  \<open>total\<close> themselves.
\<close>

datatype event =
    ErrorMsg | Warning | Started nat nat | Divider | ProgressBar nat
  | HeadingX ustr | Result combination | Progress nat nat | Completed | Balloons

text \<open>
  The state a run changes: the requests sent to the backend, what has been shown, and
  the counter \<open>done\<close> of line 147.
\<close>

record state =
  sent :: "request list"
  shown :: "event list"
  done_count :: nat

text \<open>
  How a run of the script ends: it reaches its end, \<open>st.stop()\<close> ends it, or an exception
  leaves it.
\<close>

datatype status = Finished | Stopped | Raised error

definition init_state :: state where
  "init_state = \<lparr>sent = [], shown = [], done_count = 0\<rparr>"

text \<open>One call of \<open>client.models.generate_content\<close>: the request is recorded as sent.\<close>

definition generate_content :: "env \<Rightarrow> request \<Rightarrow> state \<Rightarrow> (error + response) \<times> state" where
  "generate_content e req st = (client e (sent st) req, st\<lparr>sent := sent st @ [req]\<rparr>)"

text \<open>\<open>resp.text or ""\<close>\<close>

definition text_or_empty :: "response \<Rightarrow> ustr" where
  "text_or_empty resp = (case rtext resp of None \<Rightarrow> [] | Some t \<Rightarrow> t)"

text \<open>
  \<open>gen_response\<close> (lines 43-49): one call with \<open>gen_config\<close>; the answer is
  \<open>(resp.text or "").strip()\<close>. An exception of the call is not caught.
\<close>

definition gen_response :: "env \<Rightarrow> inputs \<Rightarrow> ustr \<Rightarrow> state \<Rightarrow> (error + ustr) \<times> state" where
  "gen_response e inp question st =
     (case generate_content e
             \<lparr>model = model_name inp, contents = question, config = Grounded\<rparr> st of
        (Inl err, st') \<Rightarrow> (Inl err, st')
      | (Inr resp, st') \<Rightarrow> (Inr (strip (text_or_empty resp)), st'))"

section \<open>The generated lists\<close>

text \<open>
  \<^verbatim>\<open>[str(x).strip() for x in data if str(x).strip()]\<close> (lines 64 and 69).
\<close>

definition list_items :: "env \<Rightarrow> pyval list \<Rightarrow> ustr list" where
  "list_items e data = [strip (str_of e x). x \<leftarrow> data, strip (str_of e x) \<noteq> []]"

text \<open>
  The characters of \<open>ln.strip("-* \t")\<close> at line 74, where \<open>*\<close> stands for the bullet
  \<open>U+2022\<close>: hyphen, bullet, space and tab.
\<close>

definition bullet_chars :: ustr where
  "bullet_chars = [45, 8226, 32, 9]"

text \<open>
  Lines 73-75: the text is trimmed and split into lines; a line is kept when
  \<open>ln.strip()\<close> is not empty, and what is kept of it is \<open>ln.strip("-* \t")\<close>.
\<close>

definition fallback_lines :: "response \<Rightarrow> ustr list" where
  "fallback_lines resp =
     (let text = strip (text_or_empty resp)
      in [strip_chars bullet_chars ln. ln \<leftarrow> splitlines text, strip ln \<noteq> []])"

text \<open>
  \<open>json.loads(resp.text)\<close> inside the \<open>try\<close> of lines 66-71: \<open>None\<close> when it raises, which
  it also does for a text that is \<open>None\<close>.
\<close>

definition try_json :: "env \<Rightarrow> response \<Rightarrow> pyval option" where
  "try_json e resp = (case rtext resp of None \<Rightarrow> None | Some t \<Rightarrow> json_loads e t)"

text \<open>
  Lines 62-75 of \<open>list_gen\<close>, after the call: if \<open>.parsed\<close> is a list, its items are
  returned; otherwise, if the text decodes to a list, the items of that list are
  returned; otherwise the lines of the text are.
\<close>

definition response_list :: "env \<Rightarrow> response \<Rightarrow> ustr list" where
  "response_list e resp =
     (case parsed resp of
        PList data \<Rightarrow> list_items e data
      | _ \<Rightarrow>
          (case try_json e resp of
             Some (PList decoded) \<Rightarrow> list_items e decoded
           | _ \<Rightarrow> fallback_lines resp))"

text \<open>
  \<open>list_gen\<close> (lines 51-75): one call with the JSON list configuration, whose exception
  is not caught, then \<open>response_list\<close>.
\<close>

definition list_gen :: "env \<Rightarrow> inputs \<Rightarrow> ustr \<Rightarrow> state \<Rightarrow> (error + ustr list) \<times> state" where
  "list_gen e inp prompt st =
     (case generate_content e
             \<lparr>model = model_name inp, contents = prompt, config = JsonList\<rparr> st of
        (Inl err, st') \<Rightarrow> (Inl err, st')
      | (Inr resp, st') \<Rightarrow> (Inr (response_list e resp), st'))"

text \<open>Lines 128-135: the two lists, generated (\<open>X\<close> first) or manual.\<close>

definition resolve_lists ::
  "env \<Rightarrow> inputs \<Rightarrow> state \<Rightarrow> (error + ustr list \<times> ustr list) \<times> state" where
  "resolve_lists e inp st =
     (case mode inp of
        Generated \<Rightarrow>
          (case list_gen e inp (x_topics inp) st of
             (Inl err, st1) \<Rightarrow> (Inl err, st1)
           | (Inr X_list, st1) \<Rightarrow>
               (case list_gen e inp (y_topics inp) st1 of
                  (Inl err, st2) \<Rightarrow> (Inl err, st2)
                | (Inr Y_list, st2) \<Rightarrow> (Inr (X_list, Y_list), st2)))
      | Manual \<Rightarrow> (Inr (manual_list (x_manual inp), manual_list (y_manual inp)), st))"

section \<open>The run loop\<close>

text \<open>
  The inner loop (lines 156-199) over \<open>enumerate(Y_list)\<close>, for one \<open>x_word\<close>: the query
  is built, \<open>gen_response\<close> is called, the block is rendered, \<open>done\<close> is incremented and
  the progress bar updated. An exception of \<open>gen_response\<close> leaves the loop at once.
\<close>

fun run_y ::
  "env \<Rightarrow> inputs \<Rightarrow> nat \<Rightarrow> nat \<Rightarrow> ustr \<Rightarrow> (nat \<times> ustr) list \<Rightarrow> state \<Rightarrow> error option \<times> state"
where
  "run_y e inp total_pairs xi x_word [] st = (None, st)"
| "run_y e inp total_pairs xi x_word ((yi, y_word) # ys) st =
     (let query = build_query (question_template inp) x_word y_word in
      case gen_response e inp query st of
        (Inl err, st') \<Rightarrow> (Some err, st')
      | (Inr answer, st') \<Rightarrow>
          run_y e inp total_pairs xi x_word ys
            (st'\<lparr>shown := shown st' @
                    [Result \<lparr>res_xi = xi, res_yi = yi, res_x = x_word, res_y = y_word,
                             res_query = query, res_answer = answer\<rparr>,
                     Progress (done_count st' + 1) total_pairs],
                  done_count := done_count st' + 1\<rparr>))"

text \<open>
  The outer loop (lines 152-199) over \<open>enumerate(X_list)\<close>: the heading of the \<open>X\<close>, then
  the inner loop.
\<close>

fun run_x ::
  "env \<Rightarrow> inputs \<Rightarrow> nat \<Rightarrow> ustr list \<Rightarrow> (nat \<times> ustr) list \<Rightarrow> state \<Rightarrow> error option \<times> state"
where
  "run_x e inp total_pairs Y_list [] st = (None, st)"
| "run_x e inp total_pairs Y_list ((xi, x_word) # xs) st =
     (case run_y e inp total_pairs xi x_word (enumerate 0 Y_list)
             (st\<lparr>shown := shown st @ [HeadingX x_word]\<rparr>) of
        (Some err, st') \<Rightarrow> (Some err, st')
      | (None, st') \<Rightarrow> run_x e inp total_pairs Y_list xs st')"

text \<open>
  Lines 141-202: the start message, \<open>total\<close>, the progress bar, \<open>done = 0\<close>, the two
  loops, and the final message with the balloons when the loops come to their end.
\<close>

definition runner :: "env \<Rightarrow> inputs \<Rightarrow> ustr list \<Rightarrow> ustr list \<Rightarrow> state \<Rightarrow> status \<times> state" where
  "runner e inp X_list Y_list st =
     (let total_pairs = length X_list * length Y_list;
          st1 = st\<lparr>shown := shown st @
                    [Started (length X_list) (length Y_list), Divider, ProgressBar 0],
                  done_count := 0\<rparr>
      in case run_x e inp total_pairs Y_list (enumerate 0 X_list) st1 of
           (Some err, st') \<Rightarrow> (Raised err, st')
         | (None, st') \<Rightarrow> (Finished, st'\<lparr>shown := shown st' @ [Completed, Balloons]\<rparr>))"

text \<open>
  Lines 137-202: the guard \<^verbatim>\<open>if not X_list or not Y_list\<close> with its warning and
  \<open>st.stop()\<close>, then the run.
\<close>

definition start_run :: "env \<Rightarrow> inputs \<Rightarrow> ustr list \<Rightarrow> ustr list \<Rightarrow> state \<Rightarrow> status \<times> state" where
  "start_run e inp X_list Y_list st =
     (if X_list = [] \<or> Y_list = [] then (Stopped, st\<lparr>shown := shown st @ [Warning]\<rparr>)
      else runner e inp X_list Y_list st)"

text \<open>
  Lines 121-202, one run of the script from the button on: nothing happens unless the
  button was pressed; without a key the error is shown and the script stops; otherwise
  the lists are resolved and the guarded run starts.
\<close>

definition app :: "env \<Rightarrow> inputs \<Rightarrow> status \<times> state" where
  "app e inp =
     (if \<not> run inp then (Finished, init_state)
      else if api_key inp = [] then (Stopped, init_state\<lparr>shown := [ErrorMsg]\<rparr>)
      else
        (case resolve_lists e inp init_state of
           (Inl err, st) \<Rightarrow> (Raised err, st)
         | (Inr (X_list, Y_list), st) \<Rightarrow> start_run e inp X_list Y_list st))"

section \<open>Reading a run\<close>

text \<open>The result blocks and the progress updates among the events shown, in order.\<close>

fun results_of :: "event list \<Rightarrow> combination list" where
  "results_of [] = []"
| "results_of (Result r # evs) = r # results_of evs"
| "results_of (ev # evs) = results_of evs"

fun progress_of :: "event list \<Rightarrow> (nat \<times> nat) list" where
  "progress_of [] = []"
| "progress_of (Progress d t # evs) = (d, t) # progress_of evs"
| "progress_of (ev # evs) = progress_of evs"

text \<open>The request \<open>gen_response\<close> sends for a pair, and the requests of all pairs, \<open>X\<close> outer.\<close>

definition pair_request :: "inputs \<Rightarrow> ustr \<Rightarrow> ustr \<Rightarrow> request" where
  "pair_request inp x y =
     \<lparr>model = model_name inp, contents = build_query (question_template inp) x y,
      config = Grounded\<rparr>"

definition pair_requests :: "inputs \<Rightarrow> ustr list \<Rightarrow> ustr list \<Rightarrow> request list" where
  "pair_requests inp X_list Y_list =
     map (\<lambda>(x, y). pair_request inp x y) (List.product X_list Y_list)"

definition indexed_request :: "inputs \<Rightarrow> (nat \<times> ustr) \<times> (nat \<times> ustr) \<Rightarrow> request" where
  "indexed_request inp p = pair_request inp (snd (fst p)) (snd (snd p))"

text \<open>The block rendered for an enumerated pair and the response to its request.\<close>

definition pair_result :: "inputs \<Rightarrow> (nat \<times> ustr) \<times> (nat \<times> ustr) \<Rightarrow> response \<Rightarrow> combination" where
  "pair_result inp p resp =
     \<lparr>res_xi = fst (fst p), res_yi = fst (snd p), res_x = snd (fst p), res_y = snd (snd p),
      res_query = build_query (question_template inp) (snd (fst p)) (snd (snd p)),
      res_answer = strip (text_or_empty resp)\<rparr>"

text \<open>
  What a backend answers when the requests \<open>reqs\<close> are sent one after the other after
  the history \<open>h\<close>: \<open>reply\<close> is the answer to the \<open>i\<close>-th of them (counted from 0), \<open>feed\<close>
  the responses up to the first exception, with that exception.
\<close>

definition reply :: "backend \<Rightarrow> request list \<Rightarrow> request list \<Rightarrow> nat \<Rightarrow> error + response" where
  "reply c h reqs i = c (h @ take i reqs) (reqs ! i)"

fun feed :: "backend \<Rightarrow> request list \<Rightarrow> request list \<Rightarrow> response list \<times> error option" where
  "feed c h [] = ([], None)"
| "feed c h (r # rs) =
     (case c h r of
        Inl err \<Rightarrow> ([], Some err)
      | Inr resp \<Rightarrow> (case feed c (h @ [r]) rs of (resps, err) \<Rightarrow> (resp # resps, err)))"

definition n_sent :: "response list \<times> error option \<Rightarrow> nat" where
  "n_sent f = length (fst f) + (case snd f of None \<Rightarrow> 0 | Some err \<Rightarrow> 1)"

section \<open>A reference environment\<close>

text \<open>
  One environment, to run the examples in: a decoder for the JSON texts that
  \<open>json.loads\<close> accepts, \<open>str\<close> of the scalar values, and some backends. The decoder
  follows the scanner of the \<open>json\<close> module: white space is space, tab, line feed and
  carriage return; strings are read strictly (no control character below \<open>0x20\<close>); the
  literals \<open>NaN\<close>, \<open>Infinity\<close> and \<open>-Infinity\<close> are accepted; a text that starts with a byte
  order mark, or that continues after the value, is refused. The limits an interpreter
  puts on the nesting depth and on the number of digits of an integer are not part of
  it.
\<close>

definition json_ws :: "nat \<Rightarrow> bool" where
  "json_ws c \<longleftrightarrow> c = 32 \<or> c = 9 \<or> c = 10 \<or> c = 13"

definition skip_ws :: "ustr \<Rightarrow> ustr" where
  "skip_ws s = dropWhile json_ws s"

definition is_digit :: "nat \<Rightarrow> bool" where
  "is_digit c \<longleftrightarrow> 48 \<le> c \<and> c \<le> 57"

definition hex_digit :: "nat \<Rightarrow> nat option" where
  "hex_digit c =
     (if 48 \<le> c \<and> c \<le> 57 then Some (c - 48)
      else if 97 \<le> c \<and> c \<le> 102 then Some (c - 87)
      else if 65 \<le> c \<and> c \<le> 70 then Some (c - 55)
      else None)"

text \<open>The four hexadecimal digits of a \<open>\uXXXX\<close> escape, and the rest of the text.\<close>

definition hex4 :: "ustr \<Rightarrow> (nat \<times> ustr) option" where
  "hex4 s =
     (case s of
        a # b # c # d # rest \<Rightarrow>
          (case (hex_digit a, hex_digit b, hex_digit c, hex_digit d) of
             (Some x, Some y, Some z, Some w) \<Rightarrow> Some (((x * 16 + y) * 16 + z) * 16 + w, rest)
           | _ \<Rightarrow> None)
      | _ \<Rightarrow> None)"

text \<open>The escapes of one character: quote, backslash, slash, \<open>b\<close>, \<open>f\<close>, \<open>n\<close>, \<open>r\<close>, \<open>t\<close>.\<close>

definition simple_escape :: "nat \<Rightarrow> nat option" where
  "simple_escape c =
     (if c = 34 \<or> c = 92 \<or> c = 47 then Some c
      else if c = 98 then Some 8
      else if c = 102 then Some 12
      else if c = 110 then Some 10
      else if c = 114 then Some 13
      else if c = 116 then Some 9
      else None)"

text \<open>A \<open>\uXXXX\<close> escape of a low surrogate, which pairs with a high surrogate before it.\<close>

definition low_surrogate :: "ustr \<Rightarrow> (nat \<times> ustr) option" where
  "low_surrogate s =
     (case s of
        b # v # rest \<Rightarrow>
          (if b = 92 \<and> v = 117 then
             (case hex4 rest of
                Some (lo, rest') \<Rightarrow> if 56320 \<le> lo \<and> lo \<le> 57343 then Some (lo, rest') else None
              | None \<Rightarrow> None)
           else None)
      | _ \<Rightarrow> None)"

text \<open>
  The characters of a string after its opening quote, up to the closing quote. The
  first argument bounds the number of steps; the length of the text is enough.
\<close>

fun scan_string :: "nat \<Rightarrow> ustr \<Rightarrow> ustr \<Rightarrow> (ustr \<times> ustr) option" where
  "scan_string 0 acc s = None"
| "scan_string (Suc n) acc [] = None"
| "scan_string (Suc n) acc (c # s) =
     (if c = 34 then Some (acc, s)
      else if c = 92 then
        (case s of
           [] \<Rightarrow> None
         | d # s1 \<Rightarrow>
             if d = 117 then
               (case hex4 s1 of
                  None \<Rightarrow> None
                | Some (hi, s2) \<Rightarrow>
                    if 55296 \<le> hi \<and> hi \<le> 56319 then
                      (case low_surrogate s2 of
                         Some (lo, s3) \<Rightarrow>
                           scan_string n (acc @ [65536 + (hi - 55296) * 1024 + (lo - 56320)]) s3
                       | None \<Rightarrow> scan_string n (acc @ [hi]) s2)
                    else scan_string n (acc @ [hi]) s2)
             else
               (case simple_escape d of
                  None \<Rightarrow> None
                | Some v \<Rightarrow> scan_string n (acc @ [v]) s1))
      else if c \<le> 31 then None
      else scan_string n (acc @ [c]) s)"

definition digits_val :: "ustr \<Rightarrow> nat" where
  "digits_val ds = foldl (\<lambda>n c. n * 10 + (c - 48)) 0 ds"

text \<open>
  The three parts of a number: the integer part (\<open>0\<close>, or a digit from 1 to 9 and more
  digits), a fraction (a point and at least one digit) and an exponent (\<open>e\<close> or \<open>E\<close>, a
  sign or none, at least one digit). Each is the longest such prefix, empty when there
  is none.
\<close>

definition int_part :: "ustr \<Rightarrow> ustr" where
  "int_part s =
     (case s of
        [] \<Rightarrow> []
      | c # r \<Rightarrow>
          if c = 48 then [48]
          else if 49 \<le> c \<and> c \<le> 57 then c # takeWhile is_digit r
          else [])"

definition frac_part :: "ustr \<Rightarrow> ustr" where
  "frac_part s =
     (case s of
        c # d # r \<Rightarrow> if c = 46 \<and> is_digit d then c # d # takeWhile is_digit r else []
      | _ \<Rightarrow> [])"

definition exp_part :: "ustr \<Rightarrow> ustr" where
  "exp_part s =
     (case s of
        [] \<Rightarrow> []
      | c # r \<Rightarrow>
          if c = 101 \<or> c = 69 then
            (let sg = (case r of [] \<Rightarrow> [] | d # r' \<Rightarrow> if d = 43 \<or> d = 45 then [d] else []);
                 ds = takeWhile is_digit (drop (length sg) r)
             in if ds = [] then [] else c # sg @ ds)
          else [])"

text \<open>
  A number: an \<open>int\<close> when it has neither fraction nor exponent, a \<open>float\<close> (kept as its
  literal) otherwise.
\<close>

definition scan_number :: "ustr \<Rightarrow> (pyval \<times> ustr) option" where
  "scan_number s =
     (let neg = (take 1 s = [45]);
          s1 = (if neg then drop 1 s else s);
          ip = int_part s1;
          s2 = drop (length ip) s1;
          fr = frac_part s2;
          s3 = drop (length fr) s2;
          ex = exp_part s3;
          s4 = drop (length ex) s3
      in if ip = [] then None
         else if fr = [] \<and> ex = [] then
           Some (PInt (if neg then - int (digits_val ip) else int (digits_val ip)), s4)
         else Some (PFloat ((if neg then [45] else []) @ ip @ fr @ ex), s4))"

text \<open>Setting a key of a dict: a key that is there keeps its place and gets the value.\<close>

fun dict_set :: "(ustr \<times> pyval) list \<Rightarrow> ustr \<Rightarrow> pyval \<Rightarrow> (ustr \<times> pyval) list" where
  "dict_set [] k v = [(k, v)]"
| "dict_set ((k', v') # kvs) k v =
     (if k' = k then (k, v) # kvs else (k', v') # dict_set kvs k v)"

text \<open>
  A value at the start of the text, with the rest of the text; the items of an array
  after its bracket, and the members of an object after its brace. The first argument
  bounds the depth of the calls; \<open>py_json_loads\<close> gives twice the length of the text.
\<close>

fun scan_value :: "nat \<Rightarrow> ustr \<Rightarrow> (pyval \<times> ustr) option"
  and scan_array :: "nat \<Rightarrow> pyval list \<Rightarrow> ustr \<Rightarrow> (pyval list \<times> ustr) option"
  and scan_object ::
    "nat \<Rightarrow> (ustr \<times> pyval) list \<Rightarrow> ustr \<Rightarrow> ((ustr \<times> pyval) list \<times> ustr) option"
where
  "scan_value 0 s = None"
| "scan_value (Suc n) s =
     (case s of
        [] \<Rightarrow> None
      | c # r \<Rightarrow>
          if c = 34 then
            (case scan_string (length s) [] r of
               None \<Rightarrow> None
             | Some (str, rest) \<Rightarrow> Some (PStr str, rest))
          else if c = 123 then
            (case skip_ws r of
               [] \<Rightarrow> None
             | d # r1 \<Rightarrow>
                 if d = 125 then Some (PDict [], r1)
                 else (case scan_object n [] (d # r1) of
                         None \<Rightarrow> None
                       | Some (kvs, rest) \<Rightarrow> Some (PDict kvs, rest)))
          else if c = 91 then
            (case skip_ws r of
               [] \<Rightarrow> None
             | d # r1 \<Rightarrow>
                 if d = 93 then Some (PList [], r1)
                 else (case scan_array n [] (d # r1) of
                         None \<Rightarrow> None
                       | Some (vs, rest) \<Rightarrow> Some (PList vs, rest)))
          else if prefix (u ''null'') s then Some (PNone, drop 4 s)
          else if prefix (u ''true'') s then Some (PBool True, drop 4 s)
          else if prefix (u ''false'') s then Some (PBool False, drop 5 s)
          else if prefix (u ''NaN'') s then Some (PFloat (u ''NaN''), drop 3 s)
          else if prefix (u ''Infinity'') s then Some (PFloat (u ''Infinity''), drop 8 s)
          else if prefix (u ''-Infinity'') s then Some (PFloat (u ''-Infinity''), drop 9 s)
          else scan_number s)"
| "scan_array 0 acc s = None"
| "scan_array (Suc n) acc s =
     (case scan_value n s of
        None \<Rightarrow> None
      | Some (v, rest) \<Rightarrow>
          (case skip_ws rest of
             [] \<Rightarrow> None
           | c # r \<Rightarrow>
               if c = 93 then Some (acc @ [v], r)
               else if c = 44 then scan_array n (acc @ [v]) (skip_ws r)
               else None))"
| "scan_object 0 acc s = None"
| "scan_object (Suc n) acc s =
     (case s of
        [] \<Rightarrow> None
      | q # r \<Rightarrow>
          if q \<noteq> 34 then None
          else
            (case scan_string (length s) [] r of
               None \<Rightarrow> None
             | Some (key, rest) \<Rightarrow>
                 (case skip_ws rest of
                    [] \<Rightarrow> None
                  | c # r1 \<Rightarrow>
                      if c \<noteq> 58 then None
                      else
                        (case scan_value n (skip_ws r1) of
                           None \<Rightarrow> None
                         | Some (v, rest2) \<Rightarrow>
                             (case skip_ws rest2 of
                                [] \<Rightarrow> None
                              | d # r2 \<Rightarrow>
                                  if d = 125 then Some (dict_set acc key v, r2)
                                  else if d = 44 then
                                    scan_object n (dict_set acc key v) (skip_ws r2)
                                  else None)))))"

text \<open>\<open>json.loads(s)\<close> for a \<open>str\<close>: the value, or \<open>None\<close> where \<open>json.loads\<close> raises.\<close>

definition py_json_loads :: "ustr \<Rightarrow> pyval option" where
  "py_json_loads s =
     (if take 1 s = [65279] then None
      else
        (case scan_value (2 * length s + 2) (skip_ws s) of
           None \<Rightarrow> None
         | Some (v, rest) \<Rightarrow> if skip_ws rest = [] then Some v else None))"

text \<open>\<open>str(i)\<close> for an \<open>int\<close>: its decimal digits, after a minus sign when it is negative.\<close>

fun digits_of :: "nat \<Rightarrow> ustr" where
  "digits_of n = (if n < 10 then [48 + n] else digits_of (n div 10) @ [48 + n mod 10])"

declare digits_of.simps [simp del]

definition str_int :: "int \<Rightarrow> ustr" where
  "str_int i = (if i < 0 then 45 # digits_of (nat (- i)) else digits_of (nat i))"

text \<open>
  \<open>str(v)\<close>: worked out for \<open>None\<close>, \<open>bool\<close>, \<open>int\<close> and \<open>str\<close>. The string of a float, a
  list or a dict (their \<open>repr\<close>) is left to the parameter \<open>repr_other\<close>.
\<close>

definition py_str :: "(pyval \<Rightarrow> ustr) \<Rightarrow> pyval \<Rightarrow> ustr" where
  "py_str repr_other v =
     (case v of
        PNone \<Rightarrow> u ''None''
      | PBool b \<Rightarrow> (if b then u ''True'' else u ''False'')
      | PInt i \<Rightarrow> str_int i
      | PStr s \<Rightarrow> s
      | _ \<Rightarrow> repr_other v)"

definition reference_env :: "backend \<Rightarrow> (pyval \<Rightarrow> ustr) \<Rightarrow> env" where
  "reference_env c repr_other =
     \<lparr>client = c, json_loads = py_json_loads, str_of = py_str repr_other\<rparr>"

text \<open>
  A value for \<open>repr_other\<close> where an example needs a closed environment; no example
  has a float, a list or a dict as an item of a list.
\<close>

definition no_repr :: "pyval \<Rightarrow> ustr" where
  "no_repr v = []"

text \<open>The JSON text of the array of the two strings \<open>P\<close> and \<open>Q\<close>; 34 is the double quote.\<close>

definition json_PQ :: ustr where
  "json_PQ = u ''['' @ [34] @ u ''P'' @ [34] @ u '','' @ [34] @ u ''Q'' @ [34] @ u '']''"

text \<open>
  Three backends: one that answers every request with its contents after \<open>re: \<close>, one
  that raises at the request sent after \<open>k\<close> others and answers like the first before,
  and one that answers a request for a list with \<open>json_PQ\<close>.
\<close>

definition echo_backend :: backend where
  "echo_backend h req = Inr \<lparr>parsed = PNone, rtext = Some (u '' re: '' @ contents req)\<rparr>"

definition failing_backend :: "nat \<Rightarrow> backend" where
  "failing_backend k h req =
     (if length h = k then Inl (BackendError (u ''quota'')) else echo_backend h req)"

definition json_backend :: backend where
  "json_backend h req =
     Inr \<lparr>parsed = PNone,
          rtext = Some (if config req = JsonList then json_PQ else u ''re: '' @ contents req)\<rparr>"

text \<open>Inputs of a run with manual lists of one word each.\<close>

definition demo_inputs :: inputs where
  "demo_inputs =
     \<lparr>api_key = u ''key'', mode = Manual, model_name = u ''gemini-2.5-flash'',
      x_topics = [], y_topics = [], x_manual = u ''Mfg'', y_manual = u ''Cost'',
      question_template = u ''In X, about Y'', run = True\<rparr>"

section \<open>Strings: lemmas\<close>

lemma u_X: "u ''X'' = [88]"
  by (simp add: u_def)

lemma u_Y: "u ''Y'' = [89]"
  by (simp add: u_def)

lemma str_replace_single: "str_replace [p] new s = subst_char p new s"
  by (induction s) (auto simp: subst_char_def)

lemma subst_char_append:
  "subst_char p new (a @ b) = subst_char p new a @ subst_char p new b"
  by (simp add: subst_char_def)

lemma subst_char_concat:
  "subst_char p new (concat xss) = concat (map (subst_char p new) xss)"
  by (induction xss) (simp_all add: subst_char_append, simp add: subst_char_def)

lemma subst_char_absent: "p \<notin> set s \<Longrightarrow> subst_char p new s = s"
  by (induction s) (simp_all add: subst_char_def)

lemma build_query_charwise:
  "build_query t x y =
     concat (map (\<lambda>c. if c = 88 then subst_char 89 y x else if c = 89 then y else [c]) t)"
proof -
  have "build_query t x y = subst_char 89 y (subst_char 88 x t)"
    by (simp add: build_query_def u_X u_Y str_replace_single)
  also have "\<dots> = concat (map (subst_char 89 y) (map (\<lambda>c. if c = 88 then x else [c]) t))"
    by (simp add: subst_char_concat subst_char_def[of 88])
  also have "\<dots> =
      concat (map (\<lambda>c. if c = 88 then subst_char 89 y x else if c = 89 then y else [c]) t)"
    by (rule arg_cong[where f = concat]) (simp add: subst_char_def)
  finally show ?thesis .
qed

lemma y_first_charwise:
  "str_replace (u ''X'') x (str_replace (u ''Y'') y t) =
     concat (map (\<lambda>c. if c = 89 then subst_char 88 x y else if c = 88 then x else [c]) t)"
proof -
  have "str_replace (u ''X'') x (str_replace (u ''Y'') y t) =
      subst_char 88 x (subst_char 89 y t)"
    by (simp add: u_X u_Y str_replace_single)
  also have "\<dots> = concat (map (subst_char 88 x) (map (\<lambda>c. if c = 89 then y else [c]) t))"
    by (simp add: subst_char_concat subst_char_def[of 89])
  also have "\<dots> =
      concat (map (\<lambda>c. if c = 89 then subst_char 88 x y else if c = 88 then x else [c]) t)"
    by (rule arg_cong[where f = concat]) (simp add: subst_char_def)
  finally show ?thesis .
qed

lemma set_strip_with: "set (strip_with P s) \<subseteq> set s"
proof -
  have "set (dropWhile P (rev (dropWhile P s))) \<subseteq> set (rev (dropWhile P s))"
    using set_dropWhileD by fastforce
  also have "\<dots> \<subseteq> set s"
    using set_dropWhileD by fastforce
  finally show ?thesis by (simp add: strip_with_def)
qed

lemma dropWhile_fix: "xs = [] \<or> \<not> P (hd xs) \<Longrightarrow> dropWhile P xs = xs"
  by (cases xs) auto

lemma strip_with_ends:
  "strip_with P s = [] \<or> (\<not> P (hd (strip_with P s)) \<and> \<not> P (last (strip_with P s)))"
proof (cases "strip_with P s = []")
  case True
  then show ?thesis by simp
next
  case False
  let ?a = "dropWhile P s"
  let ?b = "dropWhile P (rev ?a)"
  from False have b: "?b \<noteq> []" by (simp add: strip_with_def)
  then have a: "?a \<noteq> []" by (cases "dropWhile P s") simp_all
  have "rev ?a = takeWhile P (rev ?a) @ ?b" by simp
  then have "?a = rev ?b @ rev (takeWhile P (rev ?a))"
    by (metis rev_append rev_rev_ident)
  then have "hd ?a = hd (rev ?b)" using b by (metis hd_append2 rev_is_Nil_conv)
  moreover have "\<not> P (hd ?a)" using a hd_dropWhile by blast
  moreover have "\<not> P (hd ?b)" using b hd_dropWhile by blast
  moreover have "last (rev ?b) = hd ?b" using b by (simp add: last_rev)
  ultimately show ?thesis by (simp add: strip_with_def)
qed

lemma strip_with_fix:
  assumes "s = [] \<or> (\<not> P (hd s) \<and> \<not> P (last s))"
  shows "strip_with P s = s"
proof (cases "s = []")
  case True
  then show ?thesis by (simp add: strip_with_def)
next
  case False
  with assms have h: "\<not> P (hd s)" and l: "\<not> P (last s)" by auto
  have 1: "dropWhile P s = s" using h by (simp add: dropWhile_fix)
  have "\<not> P (hd (rev s))" using l False by (simp add: hd_rev)
  then have 2: "dropWhile P (rev s) = rev s" by (simp add: dropWhile_fix)
  show ?thesis by (simp add: strip_with_def 1 2)
qed

lemma strip_with_idem: "strip_with P (strip_with P s) = strip_with P s"
  by (rule strip_with_fix) (rule strip_with_ends)

lemma splitlines_from_no_break:
  "(\<forall>c \<in> set line. \<not> is_linebreak c) \<Longrightarrow> l \<in> set (splitlines_from line s) \<Longrightarrow>
     c \<in> set l \<Longrightarrow> \<not> is_linebreak c"
  by (induction line s rule: splitlines_from.induct) (auto split: if_splits)

lemma splitlines_from_line:
  "\<forall>c \<in> set l. \<not> is_linebreak c \<Longrightarrow>
     splitlines_from acc (l @ 10 # rest) = (acc @ l) # splitlines_from [] rest"
proof (induction l arbitrary: acc)
  case Nil
  show ?case by (cases rest) (simp_all add: is_linebreak_def)
next
  case (Cons c l)
  then have c: "\<not> is_linebreak c" and "c \<noteq> 13" by (auto simp: is_linebreak_def)
  obtain d r where dr: "l @ 10 # rest = d # r" by (cases l) auto
  have "splitlines_from acc ((c # l) @ 10 # rest) =
      splitlines_from (acc @ [c]) (l @ 10 # rest)"
    using c \<open>c \<noteq> 13\<close> by (simp add: dr)
  then show ?case using Cons by simp
qed

lemma splitlines_from_last:
  "\<forall>c \<in> set l. \<not> is_linebreak c \<Longrightarrow> acc @ l \<noteq> [] \<Longrightarrow>
     splitlines_from acc l = [acc @ l]"
proof (induction l arbitrary: acc)
  case Nil
  then show ?case by simp
next
  case (Cons c l)
  then have c: "\<not> is_linebreak c" and "c \<noteq> 13" by (auto simp: is_linebreak_def)
  show ?case
  proof (cases l)
    case Nil
    then show ?thesis using c by simp
  next
    case (Cons d r)
    then have "splitlines_from acc (c # l) = splitlines_from (acc @ [c]) l"
      using c \<open>c \<noteq> 13\<close> by simp
    then show ?thesis using Cons.IH[of "acc @ [c]"] Cons.prems by simp
  qed
qed

lemma splitlines_join:
  "\<forall>l \<in> set ls. l \<noteq> [] \<and> (\<forall>c \<in> set l. \<not> is_linebreak c) \<Longrightarrow>
     splitlines (str_join [10] ls) = ls"
proof (induction "[10::nat]" ls rule: str_join.induct)
  case 1
  then show ?case by (simp add: splitlines_def)
next
  case (2 l)
  then show ?case by (simp add: splitlines_def splitlines_from_last)
next
  case (3 l m ls)
  then show ?case by (simp add: splitlines_def splitlines_from_line)
qed

lemma manual_list_entries:
  assumes "l \<in> set (manual_list s)"
  shows "l \<noteq> [] \<and> strip l = l \<and> (\<forall>c \<in> set l. \<not> is_linebreak c)"
proof -
  from assms obtain ln
    where ln: "ln \<in> set (splitlines s)" and l: "l = strip ln" and ne: "strip ln \<noteq> []"
    by (auto simp: manual_list_def)
  have "\<forall>c \<in> set ln. \<not> is_linebreak c"
    using ln splitlines_from_no_break[of "[]" ln s] by (auto simp: splitlines_def)
  moreover have "set l \<subseteq> set ln" unfolding l strip_def by (rule set_strip_with)
  ultimately have "\<forall>c \<in> set l. \<not> is_linebreak c" by blast
  then show ?thesis using l ne by (simp add: strip_def strip_with_idem)
qed

lemma comprehension_fix:
  "\<forall>l \<in> set ls. f l = l \<and> l \<noteq> [] \<Longrightarrow> [f l. l \<leftarrow> ls, f l \<noteq> []] = ls"
  by (induction ls) auto

lemma comprehension_filter_map:
  "[f l. l \<leftarrow> ls, f l \<noteq> []] = map f (filter (\<lambda>l. f l \<noteq> []) ls)"
  by (induction ls) auto

lemma strip_with_padded:
  assumes a: "\<forall>c \<in> set a. P c" and b: "\<forall>c \<in> set b. P c"
    and core: "core = [] \<or> (\<not> P (hd core) \<and> \<not> P (last core))"
  shows "strip_with P (a @ core @ b) = core"
proof (cases "core = []")
  case True
  have "\<forall>c \<in> set (a @ b). P c" using a b by auto
  then have dw: "dropWhile P (a @ b) = []" by (simp only: dropWhile_eq_Nil_conv)
  have "strip_with P (a @ b) = []" unfolding strip_with_def dw by simp
  then show ?thesis using True by simp
next
  case False
  with core have h: "\<not> P (hd core)" and l: "\<not> P (last core)" by auto
  have "dropWhile P (a @ core @ b) = dropWhile P (core @ b)"
    by (rule dropWhile_append2) (use a in auto)
  also have "\<dots> = core @ b"
    using False h by (cases core) simp_all
  finally have 1: "dropWhile P (a @ core @ b) = core @ b" .
  have "dropWhile P (rev b @ rev core) = dropWhile P (rev core)"
    by (rule dropWhile_append2) (use b in auto)
  also have "\<dots> = rev core"
    using False l by (intro dropWhile_fix) (simp add: hd_rev)
  finally show ?thesis by (simp add: strip_with_def 1)
qed

lemma strip_with_empty_iff: "strip_with P s = [] \<longleftrightarrow> (\<forall>c \<in> set s. P c)"
proof
  assume "\<forall>c \<in> set s. P c"
  then have dw: "dropWhile P s = []" by (simp only: dropWhile_eq_Nil_conv)
  show "strip_with P s = []" unfolding strip_with_def dw by simp
next
  assume e: "strip_with P s = []"
  show "\<forall>c \<in> set s. P c"
  proof (rule ccontr)
    assume "\<not> (\<forall>c \<in> set s. P c)"
    then have ne: "dropWhile P s \<noteq> []" by (simp only: dropWhile_eq_Nil_conv) simp
    then have "\<not> P (hd (dropWhile P s))" by (rule hd_dropWhile)
    moreover have "hd (dropWhile P s) \<in> set (rev (dropWhile P s))" using ne by simp
    ultimately have "dropWhile P (rev (dropWhile P s)) \<noteq> []"
      by (simp only: dropWhile_eq_Nil_conv) blast
    then show False using e by (simp add: strip_with_def)
  qed
qed

lemma splitlines_from_boundary:
  assumes l: "\<forall>c \<in> set l. \<not> is_linebreak c" and sep: "is_line_boundary sep"
    and rest: "sep = [13] \<longrightarrow> rest = [] \<or> hd rest \<noteq> 10"
  shows "splitlines_from acc (l @ sep @ rest) = (acc @ l) # splitlines_from [] rest"
  using l
proof (induction l arbitrary: acc)
  case Nil
  from sep consider c where "sep = [c]" "is_linebreak c" | "sep = [13, 10]"
    by (auto simp: is_line_boundary_def split: list.splits)
  then show ?case
  proof cases
    case 1
    then show ?thesis using rest by (cases rest) auto
  next
    case 2
    then show ?thesis by simp
  qed
next
  case (Cons c l)
  then have c: "\<not> is_linebreak c" and "c \<noteq> 13" by (auto simp: is_linebreak_def)
  from sep have "sep \<noteq> []" by (auto simp: is_line_boundary_def)
  then obtain d r where dr: "l @ sep @ rest = d # r" by (cases l; cases sep) auto
  have "splitlines_from acc ((c # l) @ sep @ rest) =
      splitlines_from (acc @ [c]) (l @ sep @ rest)"
    using c \<open>c \<noteq> 13\<close> by (simp add: dr)
  then show ?case using Cons by simp
qed

lemma splitlines_from_one:
  "\<forall>c \<in> set l. \<not> is_linebreak c \<Longrightarrow> splitlines_from [] l = (if l = [] then [] else [l])"
  using splitlines_from_last[of l "[]"] by simp

lemma hd_str_join_not_newline:
  assumes "\<forall>l \<in> set ls. \<forall>c \<in> set l. \<not> is_linebreak c" and "is_line_boundary sep"
    and "sep = [13]"
  shows "str_join sep ls = [] \<or> hd (str_join sep ls) \<noteq> 10"
proof (cases ls)
  case Nil
  then show ?thesis by simp
next
  case (Cons l ms)
  show ?thesis
  proof (cases l)
    case Nil
    then show ?thesis using Cons assms(3) by (cases ms) simp_all
  next
    case (Cons c l')
    with \<open>ls = l # ms\<close> assms(1) have "\<not> is_linebreak c" by simp
    then have "c \<noteq> 10" by (auto simp: is_linebreak_def)
    then show ?thesis using Cons \<open>ls = l # ms\<close> by (cases ms) simp_all
  qed
qed

lemma lines_of_join:
  assumes "\<forall>l \<in> set ls. \<forall>c \<in> set l. \<not> is_linebreak c" and "is_line_boundary sep"
    and "\<not> p []"
  shows "[f l. l \<leftarrow> splitlines (str_join sep ls), p l] = [f l. l \<leftarrow> ls, p l]"
  using assms(1,2)
proof (induction sep ls rule: str_join.induct)
  case (1 sep)
  then show ?case by (simp add: splitlines_def)
next
  case (2 sep l)
  then show ?case using assms(3) by (simp add: splitlines_def splitlines_from_one)
next
  case (3 sep l m ls)
  have rest: "sep = [13] \<longrightarrow> str_join sep (m # ls) = [] \<or> hd (str_join sep (m # ls)) \<noteq> 10"
  proof
    assume s13: "sep = [13]"
    have nb: "\<forall>l \<in> set (m # ls). \<forall>c \<in> set l. \<not> is_linebreak c"
      using 3(2) by simp
    show "str_join sep (m # ls) = [] \<or> hd (str_join sep (m # ls)) \<noteq> 10"
      by (rule hd_str_join_not_newline[OF nb 3(3) s13])
  qed
  have "splitlines_from [] (l @ sep @ str_join sep (m # ls)) =
      l # splitlines_from [] (str_join sep (m # ls))"
    using splitlines_from_boundary[OF _ 3(3) rest, of l "[]"] 3(2) by simp
  then show ?case using 3 by (simp add: splitlines_def)
qed

lemma sublist_strip_with: "sublist (strip_with P s) s"
proof -
  let ?a = "dropWhile P s"
  have "rev ?a = takeWhile P (rev ?a) @ dropWhile P (rev ?a)" by simp
  then have "?a = rev (dropWhile P (rev ?a)) @ rev (takeWhile P (rev ?a))"
    by (metis rev_append rev_rev_ident)
  then have a: "?a = strip_with P s @ rev (takeWhile P (rev ?a))"
    by (simp add: strip_with_def)
  have "s = takeWhile P s @ ?a" by simp
  then have "s = takeWhile P s @ strip_with P s @ rev (takeWhile P (rev ?a))"
    using a by simp
  then show ?thesis unfolding sublist_def by blast
qed

lemma sublist_after: "sublist l s \<Longrightarrow> sublist l (p @ s)"
  unfolding sublist_def by (metis append.assoc)

lemma sublist_splitlines_from:
  "l \<in> set (splitlines_from acc s) \<Longrightarrow> sublist l (acc @ s)"
proof (induction acc s rule: splitlines_from.induct)
  case (1 line)
  then show ?case by (simp split: if_splits)
next
  case (2 line c)
  then show ?case by (auto split: if_splits simp: prefix_imp_sublist)
next
  case (3 line c d s)
  have line: "sublist line (line @ c # d # s)"
    by (simp add: prefix_imp_sublist)
  show ?case
  proof (cases "c = 13 \<and> d = 10")
    case True
    with 3 have "l = line \<or> sublist l s" by auto
    then show ?thesis
    proof
      assume "l = line" with line show ?thesis by simp
    next
      assume "sublist l s"
      then have "sublist l ((line @ [c, d]) @ s)" by (rule sublist_after)
      then show ?thesis by simp
    qed
  next
    case False
    show ?thesis
    proof (cases "is_linebreak c")
      case True
      with 3 False have "l = line \<or> sublist l (d # s)" by auto
      then show ?thesis
      proof
        assume "l = line" with line show ?thesis by simp
      next
        assume "sublist l (d # s)"
        then have "sublist l ((line @ [c]) @ d # s)" by (rule sublist_after)
        then show ?thesis by simp
      qed
    next
      case nb: False
      with 3 False have "sublist l ((line @ [c]) @ d # s)" by auto
      then show ?thesis by simp
    qed
  qed
qed

lemma sublist_manual_list: "l \<in> set (manual_list s) \<Longrightarrow> sublist l s"
proof -
  assume "l \<in> set (manual_list s)"
  then obtain ln where ln: "ln \<in> set (splitlines s)" and l: "l = strip ln"
    by (auto simp: manual_list_def)
  have "sublist ln s" using sublist_splitlines_from[of ln "[]" s] ln by (simp add: splitlines_def)
  moreover have "sublist l ln" unfolding l strip_def by (rule sublist_strip_with)
  ultimately show ?thesis by (rule sublist_order.order_trans[rotated])
qed

lemma manual_list_trimmed_ends:
  assumes "l \<in> set (manual_list s)"
  shows "\<not> isspace (hd l) \<and> \<not> isspace (last l)"
proof -
  from assms obtain ln where l: "l = strip ln" and ne: "strip ln \<noteq> []"
    by (auto simp: manual_list_def)
  from strip_with_ends[of isspace ln] ne show ?thesis
    by (simp add: l strip_def)
qed

lemma manual_list_padded:
  assumes sep: "is_line_boundary sep"
    and ts: "\<forall>(a, core, b) \<in> set ts.
        (\<forall>c \<in> set (a @ b). isspace c \<and> \<not> is_linebreak c) \<and>
        (\<forall>c \<in> set core. \<not> is_linebreak c) \<and>
        (core = [] \<or> (\<not> isspace (hd core) \<and> \<not> isspace (last core)))"
  shows "manual_list (str_join sep (map (\<lambda>(a, core, b). a @ core @ b) ts)) =
     filter (\<lambda>l. l \<noteq> []) (map (\<lambda>(a, core, b). core) ts)"
proof -
  let ?pad = "\<lambda>(a, core, b). a @ core @ b"
  have nb: "\<forall>l \<in> set (map ?pad ts). \<forall>c \<in> set l. \<not> is_linebreak c"
    using ts by fastforce
  have st: "strip (?pad t) = (\<lambda>(a, core, b). core) t" if "t \<in> set ts" for t
  proof -
    obtain a core b where t: "t = (a, core, b)" by (cases t)
    from ts that t have "\<forall>c \<in> set a. isspace c" "\<forall>c \<in> set b. isspace c"
      "core = [] \<or> (\<not> isspace (hd core) \<and> \<not> isspace (last core))"
      by auto
    then have "strip_with isspace (a @ core @ b) = core" by (rule strip_with_padded)
    then show ?thesis by (simp add: t strip_def)
  qed
  have e: "strip [] = []" by (simp add: strip_def strip_with_def)
  have "manual_list (str_join sep (map ?pad ts)) = [strip l. l \<leftarrow> map ?pad ts, strip l \<noteq> []]"
    unfolding manual_list_def
    by (rule lines_of_join[OF nb sep]) (simp add: e)
  also have "\<dots> = filter (\<lambda>l. l \<noteq> []) (map (\<lambda>t. strip (?pad t)) ts)"
    by (induction ts) simp_all
  also have "map (\<lambda>t. strip (?pad t)) ts = map (\<lambda>(a, core, b). core) ts"
    using st by (intro map_cong) auto
  finally show ?thesis .
qed

section \<open>The run loop: lemmas\<close>

lemma results_of_append: "results_of (a @ b) = results_of a @ results_of b"
  by (induction a rule: results_of.induct) simp_all

lemma progress_of_append: "progress_of (a @ b) = progress_of a @ progress_of b"
  by (induction a rule: progress_of.induct) simp_all

lemma feed_length: "feed c h rs = (resps, err) \<Longrightarrow> length resps \<le> length rs"
  by (induction rs arbitrary: h resps err) (fastforce split: sum.splits prod.splits)+

lemma feed_append:
  "feed c h (a @ b) =
     (case feed c h a of
        (ra, Some err) \<Rightarrow> (ra, Some err)
      | (ra, None) \<Rightarrow> (case feed c (h @ a) b of (rb, err) \<Rightarrow> (ra @ rb, err)))"
  by (induction a arbitrary: h) (auto split: sum.splits prod.splits option.splits)

lemma feed_None_length: "feed c h rs = (resps, None) \<Longrightarrow> length resps = length rs"
  by (induction rs arbitrary: h resps) (fastforce split: sum.splits prod.splits)+

lemma feed_Some_length: "feed c h rs = (resps, Some err) \<Longrightarrow> length resps < length rs"
  by (induction rs arbitrary: h resps) (fastforce split: sum.splits prod.splits)+

lemma run_y_feed:
  assumes "feed (client e) (sent st) (map (\<lambda>(yi, y). pair_request inp x y) ys) = (resps, err)"
  shows "\<exists>st'. run_y e inp total_pairs xi x ys st = (err, st') \<and>
      sent st' = sent st @ take (n_sent (resps, err)) (map (\<lambda>(yi, y). pair_request inp x y) ys) \<and>
      done_count st' = done_count st + length resps \<and>
      results_of (shown st') =
        results_of (shown st) @ map (\<lambda>(p, resp). pair_result inp ((xi, x), p) resp) (zip ys resps) \<and>
      progress_of (shown st') =
        progress_of (shown st) @
        map (\<lambda>d. (Suc d, total_pairs)) [done_count st ..< done_count st + length resps]"
  using assms
proof (induction ys arbitrary: st resps err)
  case Nil
  then show ?case by (simp add: n_sent_def)
next
  case (Cons p ys)
  obtain yi y where p: "p = (yi, y)" by (cases p)
  let ?req = "pair_request inp x y"
  show ?case
  proof (cases "client e (sent st) ?req")
    case (Inl err')
    with Cons.prems p have "resps = []" "err = Some err'" by auto
    then show ?thesis using Inl p
      by (simp add: gen_response_def generate_content_def pair_request_def n_sent_def)
  next
    case (Inr resp)
    obtain resps' where f': "feed (client e) (sent st @ [?req]) (map (\<lambda>(yi, y). pair_request inp x y) ys) = (resps', err)"
      and resps: "resps = resp # resps'"
      using Cons.prems p Inr by (auto split: prod.splits)
    let ?st1 = "st\<lparr>sent := sent st @ [?req],
                   shown := shown st @ [Result (pair_result inp ((xi, x), p) resp), Progress (done_count st + 1) total_pairs],
                   done_count := done_count st + 1\<rparr>"
    have step: "run_y e inp total_pairs xi x (p # ys) st = run_y e inp total_pairs xi x ys ?st1"
      using Inr p
      by (simp add: gen_response_def generate_content_def pair_request_def pair_result_def
          Let_def)
    from Cons.IH[of ?st1 resps' err] f'
    obtain st' where IH: "run_y e inp total_pairs xi x ys ?st1 = (err, st')"
      "sent st' = sent ?st1 @ take (n_sent (resps', err)) (map (\<lambda>(yi, y). pair_request inp x y) ys)"
      "done_count st' = done_count ?st1 + length resps'"
      "results_of (shown st') =
        results_of (shown ?st1) @ map (\<lambda>(p, resp). pair_result inp ((xi, x), p) resp) (zip ys resps')"
      "progress_of (shown st') =
        progress_of (shown ?st1) @
        map (\<lambda>d. (Suc d, total_pairs)) [done_count ?st1 ..< done_count ?st1 + length resps']"
      by auto
    have up: "[done_count st ..< done_count st + length resps] =
        done_count st # [done_count st + 1 ..< done_count st + 1 + length resps']"
      by (simp add: resps upt_rec)
    show ?thesis
      unfolding step up
      using IH by (simp add: resps p n_sent_def results_of_append progress_of_append)
  qed
qed

lemma n_sent_le: "feed c h rs = f \<Longrightarrow> n_sent f \<le> length rs"
proof (cases f)
  case (Pair resps err)
  assume "feed c h rs = f"
  with Pair have f: "feed c h rs = (resps, err)" by simp
  show ?thesis
  proof (cases err)
    case None
    with f feed_None_length[of c h rs resps] Pair show ?thesis by (simp add: n_sent_def)
  next
    case (Some a)
    with f feed_Some_length[of c h rs resps a] Pair show ?thesis by (simp add: n_sent_def)
  qed
qed

lemma run_x_feed:
  assumes "feed (client e) (sent st)
             (map (indexed_request inp) (List.product xs (enumerate 0 Y_list))) = (resps, err)"
  shows "\<exists>st'. run_x e inp total_pairs Y_list xs st = (err, st') \<and>
      sent st' = sent st @ take (n_sent (resps, err))
                   (map (indexed_request inp) (List.product xs (enumerate 0 Y_list))) \<and>
      done_count st' = done_count st + length resps \<and>
      results_of (shown st') =
        results_of (shown st) @
        map (\<lambda>(p, resp). pair_result inp p resp)
          (zip (List.product xs (enumerate 0 Y_list)) resps) \<and>
      progress_of (shown st') =
        progress_of (shown st) @
        map (\<lambda>d. (Suc d, total_pairs)) [done_count st ..< done_count st + length resps]"
  using assms
proof (induction xs arbitrary: st resps err)
  case Nil
  then show ?case by (simp add: n_sent_def)
next
  case (Cons p xs)
  obtain xi x where p: "p = (xi, x)" by (cases p)
  let ?ys = "enumerate 0 Y_list"
  let ?ra = "map (\<lambda>(yi, y). pair_request inp x y) ?ys"
  let ?rb = "map (indexed_request inp) (List.product xs ?ys)"
  let ?st0 = "st\<lparr>shown := shown st @ [HeadingX x]\<rparr>"
  have reqs: "map (indexed_request inp) (List.product (p # xs) ?ys) = ?ra @ ?rb"
    by (simp add: p indexed_request_def split_def comp_def)
  have fab: "feed (client e) (sent st) (?ra @ ?rb) = (resps, err)"
    using Cons.prems unfolding reqs .
  obtain ra ea where fa: "feed (client e) (sent st) ?ra = (ra, ea)"
    by (cases "feed (client e) (sent st) ?ra")
  from run_y_feed[of e ?st0 inp x ?ys ra ea total_pairs xi] fa
  obtain st1 where y: "run_y e inp total_pairs xi x ?ys ?st0 = (ea, st1)"
    "sent st1 = sent st @ take (n_sent (ra, ea)) ?ra"
    "done_count st1 = done_count st + length ra"
    "results_of (shown st1) =
       results_of (shown st) @ map (\<lambda>(q, resp). pair_result inp ((xi, x), q) resp) (zip ?ys ra)"
    "progress_of (shown st1) =
       progress_of (shown st) @
       map (\<lambda>d. (Suc d, total_pairs)) [done_count st ..< done_count st + length ra]"
    by (auto simp: results_of_append progress_of_append)
  have zipa: "map (\<lambda>(q, resp). pair_result inp q resp) (zip (map (Pair (xi, x)) ?ys) ra) =
      map (\<lambda>(q, resp). pair_result inp ((xi, x), q) resp) (zip ?ys ra)"
    by (simp add: zip_map1 split_def comp_def)
  show ?case
  proof (cases ea)
    case (Some err')
    have "feed (client e) (sent st) (?ra @ ?rb) = (ra, Some err')"
      by (subst feed_append) (simp add: fa Some)
    with fab have r: "resps = ra" "err = Some err'"
      by simp_all
    have len: "length ra < length ?ys"
      using feed_Some_length[of "client e" "sent st" ?ra ra err'] fa Some by simp
    have n: "n_sent (ra, Some err') \<le> length ?ra"
      using len by (simp add: n_sent_def)
    have run: "run_x e inp total_pairs Y_list (p # xs) st = (err, st1)"
      using y(1) Some by (simp add: p r)
    have z: "zip (List.product (p # xs) ?ys) resps = zip (map (Pair (xi, x)) ?ys) ra"
      using len by (simp add: p r zip_append1)
    have t: "take (n_sent (resps, err)) (?ra @ ?rb) = take (n_sent (ra, ea)) ?ra"
      using n by (simp add: r Some)
    show ?thesis
    proof (intro exI[of _ st1] conjI)
      show "run_x e inp total_pairs Y_list (p # xs) st = (err, st1)" by (rule run)
      show "sent st1 = sent st @ take (n_sent (resps, err))
          (map (indexed_request inp) (List.product (p # xs) ?ys))"
        unfolding reqs t by (rule y(2))
      show "done_count st1 = done_count st + length resps"
        using y(3) by (simp add: r)
      show "results_of (shown st1) = results_of (shown st) @
          map (\<lambda>(p, resp). pair_result inp p resp) (zip (List.product (p # xs) ?ys) resps)"
        unfolding z zipa by (rule y(4))
      show "progress_of (shown st1) = progress_of (shown st) @
          map (\<lambda>d. (Suc d, total_pairs)) [done_count st ..< done_count st + length resps]"
        using y(5) by (simp add: r)
    qed
  next
    case None
    have len: "length ra = length ?ys"
      using feed_None_length[of "client e" "sent st" ?ra ra] fa None by simp
    have s1: "sent st1 = sent st @ ?ra"
      using y(2) len by (simp add: None n_sent_def)
    have "feed (client e) (sent st) (?ra @ ?rb) =
        (case feed (client e) (sent st @ ?ra) ?rb of (rb, err) \<Rightarrow> (ra @ rb, err))"
      by (subst feed_append) (simp add: fa None)
    with fab have "(case feed (client e) (sent st @ ?ra) ?rb of (rb, err) \<Rightarrow> (ra @ rb, err)) =
        (resps, err)"
      by simp
    then obtain rb where fb: "feed (client e) (sent st1) ?rb = (rb, err)"
      and r: "resps = ra @ rb"
      unfolding s1 by (cases "feed (client e) (sent st @ ?ra) ?rb") auto
    from Cons.IH[OF fb]
    obtain st' where x: "run_x e inp total_pairs Y_list xs st1 = (err, st')"
      "sent st' = sent st1 @ take (n_sent (rb, err)) ?rb"
      "done_count st' = done_count st1 + length rb"
      "results_of (shown st') =
         results_of (shown st1) @
         map (\<lambda>(q, resp). pair_result inp q resp) (zip (List.product xs ?ys) rb)"
      "progress_of (shown st') =
         progress_of (shown st1) @
         map (\<lambda>d. (Suc d, total_pairs)) [done_count st1 ..< done_count st1 + length rb]"
      by auto
    have run: "run_x e inp total_pairs Y_list (p # xs) st = (err, st')"
      using y(1) x(1) None by (simp add: p)
    have t: "take (n_sent (resps, err)) (?ra @ ?rb) = ?ra @ take (n_sent (rb, err)) ?rb"
      using len by (simp add: n_sent_def r)
    have z: "zip (List.product (p # xs) ?ys) resps =
        zip (map (Pair (xi, x)) ?ys) ra @ zip (List.product xs ?ys) rb"
      using len by (simp add: p r zip_append1)
    have up: "[done_count st ..< done_count st + length resps] =
        [done_count st ..< done_count st + length ra] @
        [done_count st1 ..< done_count st1 + length rb]"
      unfolding y(3) r
      using upt_add_eq_append[of "done_count st" "done_count st + length ra" "length rb"]
      by (simp add: add.assoc)
    show ?thesis
    proof (intro exI[of _ st'] conjI)
      show "run_x e inp total_pairs Y_list (p # xs) st = (err, st')" by (rule run)
      show "sent st' = sent st @ take (n_sent (resps, err))
          (map (indexed_request inp) (List.product (p # xs) ?ys))"
        unfolding reqs t using x(2) by (simp add: s1)
      show "done_count st' = done_count st + length resps"
        using x(3) y(3) by (simp add: r)
      show "results_of (shown st') = results_of (shown st) @
          map (\<lambda>(p, resp). pair_result inp p resp) (zip (List.product (p # xs) ?ys) resps)"
        unfolding z map_append zipa using x(4) y(4) by simp
      show "progress_of (shown st') = progress_of (shown st) @
          map (\<lambda>d. (Suc d, total_pairs)) [done_count st ..< done_count st + length resps]"
        unfolding up map_append using x(5) y(5) by simp
    qed
  qed
qed

lemma reply_0: "reply c h (r # rs) 0 = c h r"
  by (simp add: reply_def)

lemma reply_Suc: "reply c h (r # rs) (Suc i) = reply c (h @ [r]) rs i"
  by (simp add: reply_def)

lemma feed_fail_at:
  "k < length rs \<Longrightarrow> \<forall>i < k. \<not> isl (reply c h rs i) \<Longrightarrow> reply c h rs k = Inl err \<Longrightarrow>
     feed c h rs = (map (\<lambda>i. projr (reply c h rs i)) [0 ..< k], Some err)"
proof (induction rs arbitrary: h k)
  case Nil
  then show ?case by simp
next
  case (Cons r rs)
  show ?case
  proof (cases k)
    case 0
    with Cons.prems show ?thesis by (simp add: reply_0)
  next
    case (Suc j)
    from Cons.prems Suc have "\<not> isl (reply c h (r # rs) 0)" by blast
    then obtain resp where resp: "c h r = Inr resp"
      by (cases "c h r") (simp_all add: reply_0)
    have "\<forall>i < j. \<not> isl (reply c (h @ [r]) rs i)"
      using Cons.prems(2) Suc reply_Suc[of c h r rs] by (metis Suc_less_eq)
    moreover have "reply c (h @ [r]) rs j = Inl err"
      using Cons.prems(3) Suc by (simp add: reply_Suc)
    moreover have "j < length rs" using Cons.prems(1) Suc by simp
    ultimately have IH: "feed c (h @ [r]) rs =
        (map (\<lambda>i. projr (reply c (h @ [r]) rs i)) [0 ..< j], Some err)"
      by (rule Cons.IH[rotated -1, rotated -1])
    have "map (\<lambda>i. projr (reply c h (r # rs) i)) [0 ..< Suc j] =
        resp # map (\<lambda>i. projr (reply c (h @ [r]) rs i)) [0 ..< j]"
      by (simp add: map_upt_Suc reply_0 reply_Suc resp del: upt_Suc)
    then show ?thesis using IH resp Suc by simp
  qed
qed

lemma feed_all_ok:
  "\<forall>i < length rs. \<not> isl (reply c h rs i) \<Longrightarrow>
     feed c h rs = (map (\<lambda>i. projr (reply c h rs i)) [0 ..< length rs], None)"
proof (induction rs arbitrary: h)
  case Nil
  then show ?case by simp
next
  case (Cons r rs)
  from Cons.prems have "\<not> isl (reply c h (r # rs) 0)" by auto
  then obtain resp where resp: "c h r = Inr resp"
    by (cases "c h r") (simp_all add: reply_0)
  have "\<forall>i < length rs. \<not> isl (reply c (h @ [r]) rs i)"
    using Cons.prems reply_Suc[of c h r rs] by (metis Suc_less_eq length_Cons)
  then have IH: "feed c (h @ [r]) rs =
      (map (\<lambda>i. projr (reply c (h @ [r]) rs i)) [0 ..< length rs], None)"
    by (rule Cons.IH)
  have "map (\<lambda>i. projr (reply c h (r # rs) i)) [0 ..< Suc (length rs)] =
      resp # map (\<lambda>i. projr (reply c (h @ [r]) rs i)) [0 ..< length rs]"
    by (simp add: map_upt_Suc reply_0 reply_Suc resp del: upt_Suc)
  then show ?case using IH resp by simp
qed

lemma map_product_proj:
  "map (\<lambda>p. (f (fst p), g (snd p))) (List.product xs ys) = List.product (map f xs) (map g ys)"
  by (induction xs) (simp_all add: comp_def)

lemma indexed_requests: 
  "map (indexed_request inp) (List.product (enumerate 0 X_list) (enumerate 0 Y_list)) =
     pair_requests inp X_list Y_list"
proof -
  have "map (indexed_request inp) (List.product (enumerate 0 X_list) (enumerate 0 Y_list)) =
      map (\<lambda>(x, y). pair_request inp x y)
        (map (\<lambda>p. (snd (fst p), snd (snd p)))
          (List.product (enumerate 0 X_list) (enumerate 0 Y_list)))"
    by (simp add: indexed_request_def comp_def)
  also have "\<dots> = pair_requests inp X_list Y_list"
    unfolding map_product_proj by (simp add: pair_requests_def)
  finally show ?thesis .
qed

lemma length_pair_requests: "length (pair_requests inp X_list Y_list) = length X_list * length Y_list"
  by (simp add: pair_requests_def)

lemma runner_feed:
  assumes "feed (client e) (sent st) (pair_requests inp X_list Y_list) = (resps, err)"
  shows "\<exists>st'. runner e inp X_list Y_list st =
        ((case err of None \<Rightarrow> Finished | Some x \<Rightarrow> Raised x), st') \<and>
      sent st' = sent st @ take (n_sent (resps, err)) (pair_requests inp X_list Y_list) \<and>
      done_count st' = length resps \<and>
      results_of (shown st') =
        results_of (shown st) @
        map (\<lambda>(p, resp). pair_result inp p resp)
          (zip (List.product (enumerate 0 X_list) (enumerate 0 Y_list)) resps) \<and>
      progress_of (shown st') =
        progress_of (shown st) @
        map (\<lambda>d. (Suc d, length X_list * length Y_list)) [0 ..< length resps]"
proof -
  let ?st1 = "st\<lparr>shown := shown st @
                    [Started (length X_list) (length Y_list), Divider, ProgressBar 0],
                  done_count := 0\<rparr>"
  let ?n = "length X_list * length Y_list"
  have "feed (client e) (sent ?st1)
      (map (indexed_request inp) (List.product (enumerate 0 X_list) (enumerate 0 Y_list))) =
      (resps, err)"
    using assms by (simp add: indexed_requests)
  from run_x_feed[OF this, of ?n]
  obtain st' where x: "run_x e inp ?n Y_list (enumerate 0 X_list) ?st1 = (err, st')"
    "sent st' = sent st @ take (n_sent (resps, err)) (pair_requests inp X_list Y_list)"
    "done_count st' = length resps"
    "results_of (shown st') =
       results_of (shown st) @
       map (\<lambda>(p, resp). pair_result inp p resp)
         (zip (List.product (enumerate 0 X_list) (enumerate 0 Y_list)) resps)"
    "progress_of (shown st') =
       progress_of (shown st) @ map (\<lambda>d. (Suc d, ?n)) [0 ..< length resps]"
    by (auto simp: indexed_requests results_of_append progress_of_append)
  show ?thesis
  proof (cases err)
    case None
    then have "runner e inp X_list Y_list st =
        (Finished, st'\<lparr>shown := shown st' @ [Completed, Balloons]\<rparr>)"
      using x(1) by (simp add: runner_def Let_def)
    then show ?thesis using x(2-5) None
      by (simp add: results_of_append progress_of_append)
  next
    case (Some a)
    then have "runner e inp X_list Y_list st = (Raised a, st')"
      using x(1) by (simp add: runner_def Let_def)
    then show ?thesis using x(2-5) Some by simp
  qed
qed

lemma map_fst_zip_take: "map fst (zip xs ys) = take (length ys) xs"
  by (induction xs arbitrary: ys) (simp, case_tac ys, simp_all)

lemma map_snd_zip_take: "map snd (zip xs ys) = take (length xs) ys"
  by (induction xs arbitrary: ys) (simp, case_tac ys, simp_all)

lemma new_results_words:
  "map (\<lambda>r. (res_x r, res_y r))
     (map (\<lambda>(p, resp). pair_result inp p resp)
        (zip (List.product (enumerate 0 X_list) (enumerate 0 Y_list)) resps)) =
   take (length resps) (List.product X_list Y_list)"
proof -
  have "map (\<lambda>r. (res_x r, res_y r))
     (map (\<lambda>(p, resp). pair_result inp p resp)
        (zip (List.product (enumerate 0 X_list) (enumerate 0 Y_list)) resps)) =
    map (\<lambda>p. (snd (fst p), snd (snd p)))
      (map fst (zip (List.product (enumerate 0 X_list) (enumerate 0 Y_list)) resps))"
    by (simp add: pair_result_def split_def comp_def)
  also have "\<dots> = take (length resps)
      (map (\<lambda>p. (snd (fst p), snd (snd p)))
        (List.product (enumerate 0 X_list) (enumerate 0 Y_list)))"
    by (simp only: map_fst_zip_take take_map)
  also have "\<dots> = take (length resps) (List.product X_list Y_list)"
    by (simp only: map_product_proj map_snd_enumerate)
  finally show ?thesis .
qed

lemma new_results_queries:
  "map res_query
     (map (\<lambda>(p, resp). pair_result inp p resp)
        (zip (List.product (enumerate 0 X_list) (enumerate 0 Y_list)) resps)) =
   take (length resps)
     (map (\<lambda>(x, y). build_query (question_template inp) x y) (List.product X_list Y_list))"
proof -
  have "map res_query
     (map (\<lambda>(p, resp). pair_result inp p resp)
        (zip (List.product (enumerate 0 X_list) (enumerate 0 Y_list)) resps)) =
    map (\<lambda>(x, y). build_query (question_template inp) x y)
      (map (\<lambda>p. (snd (fst p), snd (snd p)))
        (map fst (zip (List.product (enumerate 0 X_list) (enumerate 0 Y_list)) resps)))"
    by (simp add: pair_result_def split_def comp_def)
  also have "\<dots> = take (length resps)
     (map (\<lambda>(x, y). build_query (question_template inp) x y)
       (map (\<lambda>p. (snd (fst p), snd (snd p)))
         (List.product (enumerate 0 X_list) (enumerate 0 Y_list))))"
    by (simp only: map_fst_zip_take take_map)
  also have "\<dots> = take (length resps)
     (map (\<lambda>(x, y). build_query (question_template inp) x y) (List.product X_list Y_list))"
    by (simp only: map_product_proj map_snd_enumerate)
  finally show ?thesis .
qed

lemma new_results_answers:
  "length resps \<le> length X_list * length Y_list \<Longrightarrow>
   map res_answer
     (map (\<lambda>(p, resp). pair_result inp p resp)
        (zip (List.product (enumerate 0 X_list) (enumerate 0 Y_list)) resps)) =
   map (\<lambda>resp. strip (text_or_empty resp)) resps"
proof -
  assume len: "length resps \<le> length X_list * length Y_list"
  have "map res_answer
     (map (\<lambda>(p, resp). pair_result inp p resp)
        (zip (List.product (enumerate 0 X_list) (enumerate 0 Y_list)) resps)) =
    map (\<lambda>resp. strip (text_or_empty resp))
      (map snd (zip (List.product (enumerate 0 X_list) (enumerate 0 Y_list)) resps))"
    by (simp add: pair_result_def split_def comp_def)
  also have "\<dots> = map (\<lambda>resp. strip (text_or_empty resp)) resps"
    unfolding map_snd_zip_take using len by simp
  finally show ?thesis .
qed

lemma new_results_indexes:
  "map (\<lambda>r. (res_xi r, res_yi r))
     (map (\<lambda>(p, resp). pair_result inp p resp)
        (zip (List.product (enumerate 0 X_list) (enumerate 0 Y_list)) resps)) =
   take (length resps) (List.product [0 ..< length X_list] [0 ..< length Y_list])"
proof -
  have "map (\<lambda>r. (res_xi r, res_yi r))
     (map (\<lambda>(p, resp). pair_result inp p resp)
        (zip (List.product (enumerate 0 X_list) (enumerate 0 Y_list)) resps)) =
    map (\<lambda>p. (fst (fst p), fst (snd p)))
      (map fst (zip (List.product (enumerate 0 X_list) (enumerate 0 Y_list)) resps))"
    by (simp add: pair_result_def split_def comp_def)
  also have "\<dots> = take (length resps)
      (map (\<lambda>p. (fst (fst p), fst (snd p)))
        (List.product (enumerate 0 X_list) (enumerate 0 Y_list)))"
    by (simp only: map_fst_zip_take take_map)
  also have "\<dots> = take (length resps) (List.product [0 ..< length X_list] [0 ..< length Y_list])"
    by (simp only: map_product_proj map_fst_enumerate add_0)
  finally show ?thesis .
qed

lemma list_gen_state:
  "list_gen e inp prompt st = (res, st') \<Longrightarrow>
     shown st' = shown st \<and> done_count st' = done_count st \<and>
     (\<exists>r. sent st' = sent st @ [r] \<and> config r = JsonList)"
  by (auto simp: list_gen_def generate_content_def split: sum.splits)

lemma resolve_lists_state:
  assumes "resolve_lists e inp st = (res, st')"
  shows "shown st' = shown st \<and> done_count st' = done_count st \<and>
     (\<exists>rs. sent st' = sent st @ rs \<and> (\<forall>r \<in> set rs. config r = JsonList))"
proof (cases "mode inp")
  case Manual
  with assms show ?thesis by (simp add: resolve_lists_def)
next
  case Generated
  obtain r1 st1 where g1: "list_gen e inp (x_topics inp) st = (r1, st1)"
    by (cases "list_gen e inp (x_topics inp) st")
  note s1 = list_gen_state[OF g1]
  show ?thesis
  proof (cases r1)
    case (Inl err)
    with assms Generated g1 have "st' = st1" by (simp add: resolve_lists_def)
    with s1 show ?thesis by auto
  next
    case (Inr X_list)
    obtain r2 st2 where g2: "list_gen e inp (y_topics inp) st1 = (r2, st2)"
      by (cases "list_gen e inp (y_topics inp) st1")
    note s2 = list_gen_state[OF g2]
    from assms Generated g1 g2 Inr have "st' = st2"
      by (cases r2) (simp_all add: resolve_lists_def)
    with s1 s2 show ?thesis by auto
  qed
qed

section \<open>The generated lists: lemmas\<close>

lemma list_items_filter_map:
  "list_items e data = filter (\<lambda>s. s \<noteq> []) (map (\<lambda>x. strip (str_of e x)) data)"
  by (induction data) (simp_all add: list_items_def)

lemma list_items_entries: "s \<in> set (list_items e data) \<Longrightarrow> s \<noteq> [] \<and> strip s = s"
  by (auto simp: list_items_def strip_def strip_with_idem)

lemma digits_of_digits: "c \<in> set (digits_of n) \<Longrightarrow> 48 \<le> c \<and> c \<le> 57"
proof (induction n rule: digits_of.induct)
  case (1 n)
  show ?case
  proof (cases "n < 10")
    case True
    with 1(2) show ?thesis by (subst (asm) digits_of.simps) simp
  next
    case False
    with 1(2) have "c \<in> set (digits_of (n div 10)) \<or> c = 48 + n mod 10"
      by (subst (asm) digits_of.simps) auto
    then show ?thesis
    proof
      assume "c \<in> set (digits_of (n div 10))"
      with 1(1) False show ?thesis by simp
    next
      assume "c = 48 + n mod 10"
      then show ?thesis by simp
    qed
  qed
qed

lemma digits_of_nonempty: "digits_of n \<noteq> []"
  by (subst digits_of.simps) simp

lemma str_int_nonempty: "str_int i \<noteq> []"
  by (simp add: str_int_def digits_of_nonempty)

lemma str_int_no_space: "c \<in> set (str_int i) \<Longrightarrow> \<not> isspace c"
proof -
  assume "c \<in> set (str_int i)"
  then have "c = 45 \<or> c \<in> set (digits_of (nat (- i))) \<or> c \<in> set (digits_of (nat i))"
    by (auto simp: str_int_def split: if_splits)
  then have "c = 45 \<or> (48 \<le> c \<and> c \<le> 57)"
    using digits_of_digits by blast
  then show ?thesis by (auto simp: isspace_def)
qed

lemma strip_no_space: "\<forall>c \<in> set s. \<not> isspace c \<Longrightarrow> strip s = s"
  unfolding strip_def
  by (rule strip_with_fix) (cases "s = []", simp_all)

lemma strip_str_int: "strip (str_int i) = str_int i"
  by (rule strip_no_space) (simp add: str_int_no_space)

lemma response_list_parsed:
  "parsed resp = PList data \<Longrightarrow> response_list e resp = list_items e data"
  by (simp add: response_list_def)

lemma response_list_decoded:
  "\<not> is_list (parsed resp) \<Longrightarrow> rtext resp = Some t \<Longrightarrow> json_loads e t = Some (PList decoded) \<Longrightarrow>
     response_list e resp = list_items e decoded"
  by (cases "parsed resp") (simp_all add: response_list_def is_list_def try_json_def)

lemma response_list_fallback:
  assumes "\<not> is_list (parsed resp)" and "\<forall>decoded. try_json e resp \<noteq> Some (PList decoded)"
  shows "response_list e resp = fallback_lines resp"
proof -
  have "(case try_json e resp of Some (PList decoded) \<Rightarrow> list_items e decoded
          | _ \<Rightarrow> fallback_lines resp) = fallback_lines resp"
    using assms(2) by (auto split: option.splits pyval.splits)
  then show ?thesis
    using assms(1) by (cases "parsed resp") (simp_all add: response_list_def is_list_def)
qed

lemma response_list_no_text:
  "\<not> is_list (parsed resp) \<Longrightarrow> rtext resp = None \<Longrightarrow> response_list e resp = []"
proof -
  assume p: "\<not> is_list (parsed resp)" and t: "rtext resp = None"
  have "response_list e resp = fallback_lines resp"
    by (rule response_list_fallback[OF p]) (simp add: try_json_def t)
  also have "\<dots> = []"
    by (simp add: fallback_lines_def text_or_empty_def t strip_def strip_with_def splitlines_def)
  finally show ?thesis .
qed

lemma list_items_empty:
  "list_items e data = [] \<longleftrightarrow> (\<forall>x \<in> set data. strip (str_of e x) = [])"
  by (induction data) (simp_all add: list_items_def)

lemma list_items_trimmed:
  "s \<in> set (list_items e data) \<Longrightarrow> s \<noteq> [] \<and> \<not> isspace (hd s) \<and> \<not> isspace (last s)"
proof -
  assume "s \<in> set (list_items e data)"
  then obtain x where s: "s = strip (str_of e x)" and ne: "strip (str_of e x) \<noteq> []"
    by (auto simp: list_items_def)
  from strip_with_ends[of isspace "str_of e x"] ne show ?thesis
    by (simp add: s strip_def)
qed

lemma list_items_padded:
  assumes "\<forall>x \<in> set data. str_of e x = a x @ core x @ b x \<and>
      (\<forall>c \<in> set (a x @ b x). isspace c) \<and>
      (core x = [] \<or> (\<not> isspace (hd (core x)) \<and> \<not> isspace (last (core x))))"
  shows "list_items e data = filter (\<lambda>s. s \<noteq> []) (map core data)"
proof -
  have "strip (str_of e x) = core x" if "x \<in> set data" for x
  proof -
    from assms that have s: "str_of e x = a x @ core x @ b x"
      and "\<forall>c \<in> set (a x). isspace c" "\<forall>c \<in> set (b x). isspace c"
      "core x = [] \<or> (\<not> isspace (hd (core x)) \<and> \<not> isspace (last (core x)))"
      by auto
    then have "strip_with isspace (a x @ core x @ b x) = core x"
      by (intro strip_with_padded)
    then show ?thesis by (simp add: s strip_def)
  qed
  then have m: "map (\<lambda>x. strip (str_of e x)) data = map core data"
    by (intro map_cong) auto
  show ?thesis unfolding list_items_filter_map m ..
qed

lemma list_items_ints:
  assumes "\<forall>i. str_of e (PInt i) = str_int i"
  shows "list_items e (map PInt ns) = map str_int ns"
  by (induction ns) (simp_all add: list_items_def assms strip_str_int str_int_nonempty)

lemma list_gen_result:
  "list_gen e inp prompt st =
     (map_sum id (response_list e)
        (client e (sent st) \<lparr>model = model_name inp, contents = prompt, config = JsonList\<rparr>),
      st\<lparr>sent := sent st @ [\<lparr>model = model_name inp, contents = prompt, config = JsonList\<rparr>]\<rparr>)"
  by (simp add: list_gen_def generate_content_def split: sum.splits)

lemma fallback_lines_padded:
  assumes sep: "is_line_boundary sep"
    and ts: "\<forall>(a, core, b) \<in> set ts.
        set (a @ b) \<subseteq> set bullet_chars \<and>
        (\<forall>c \<in> set core. \<not> is_linebreak c) \<and>
        (core = [] \<or> (hd core \<notin> set bullet_chars \<and> last core \<notin> set bullet_chars))"
    and t: "rtext resp = Some (str_join sep (map (\<lambda>(a, core, b). a @ core @ b) ts))"
    and ends: "str_join sep (map (\<lambda>(a, core, b). a @ core @ b) ts) = [] \<or>
        (\<not> isspace (hd (str_join sep (map (\<lambda>(a, core, b). a @ core @ b) ts))) \<and>
         \<not> isspace (last (str_join sep (map (\<lambda>(a, core, b). a @ core @ b) ts))))"
  shows "fallback_lines resp =
     map (\<lambda>(a, core, b). core)
       (filter (\<lambda>(a, core, b). \<exists>c \<in> set (a @ core @ b). \<not> isspace c) ts)"
proof -
  let ?pad = "\<lambda>(a, core, b). a @ core @ b"
  let ?text = "str_join sep (map ?pad ts)"
  let ?g = "strip_chars bullet_chars"
  have bl: "is_linebreak c \<Longrightarrow> c \<notin> set bullet_chars" for c
    by (auto simp: bullet_chars_def is_linebreak_def)
  have nb: "\<forall>l \<in> set (map ?pad ts). \<forall>c \<in> set l. \<not> is_linebreak c"
    using ts bl by fastforce
  have st: "strip ?text = ?text"
    unfolding strip_def by (rule strip_with_fix) (rule ends)
  have e: "strip [] = []" by (simp add: strip_def strip_with_def)
  have "fallback_lines resp = [?g l. l \<leftarrow> splitlines ?text, strip l \<noteq> []]"
    by (simp add: fallback_lines_def text_or_empty_def t st)
  also have "\<dots> = [?g l. l \<leftarrow> map ?pad ts, strip l \<noteq> []]"
    by (rule lines_of_join[OF nb sep]) (simp add: e)
  also have "\<dots> = map (\<lambda>t. ?g (?pad t)) (filter (\<lambda>t. strip (?pad t) \<noteq> []) ts)"
    by (induction ts) simp_all
  also have "filter (\<lambda>t. strip (?pad t) \<noteq> []) ts =
      filter (\<lambda>(a, core, b). \<exists>c \<in> set (a @ core @ b). \<not> isspace c) ts"
    by (intro filter_cong refl) (auto simp: strip_def strip_with_empty_iff)
  also have "map (\<lambda>t. ?g (?pad t))
        (filter (\<lambda>(a, core, b). \<exists>c \<in> set (a @ core @ b). \<not> isspace c) ts) =
      map (\<lambda>(a, core, b). core)
        (filter (\<lambda>(a, core, b). \<exists>c \<in> set (a @ core @ b). \<not> isspace c) ts)"
  proof (intro map_cong refl)
    fix t assume "t \<in> set (filter (\<lambda>(a, core, b). \<exists>c \<in> set (a @ core @ b). \<not> isspace c) ts)"
    then have m: "t \<in> set ts" by simp
    obtain a core b where t: "t = (a, core, b)" by (cases t)
    from ts m t have "\<forall>c \<in> set a. c \<in> set bullet_chars" "\<forall>c \<in> set b. c \<in> set bullet_chars"
      "core = [] \<or> (\<not> hd core \<in> set bullet_chars \<and> \<not> last core \<in> set bullet_chars)"
      by auto
    then have "strip_with (\<lambda>c. c \<in> set bullet_chars) (a @ core @ b) = core"
      by (rule strip_with_padded)
    then show "?g (?pad t) = (\<lambda>(a, core, b). core) t"
      by (simp add: t strip_chars_def)
  qed
  finally show ?thesis .
qed

section \<open>The reference environment: lemmas\<close>

lemmas string_eval =
  u_def strip_def strip_with_def isspace_def splitlines_def is_linebreak_def
  strip_chars_def bullet_chars_def

lemma reference_env_sel:
  "client (reference_env c r) = c" "json_loads (reference_env c r) = py_json_loads"
  "str_of (reference_env c r) = py_str r"
  by (simp_all add: reference_env_def)

lemma py_str_simps:
  "py_str r (PStr s) = s" "py_str r (PInt i) = str_int i"
  by (simp_all add: py_str_def)

lemma str_int_examples: "str_int 7 = u ''7''" "str_int (- 120) = u ''-120''"
  by (simp_all add: str_int_def digits_of.simps u_def)

lemma scan_value_dash_space: "scan_value (Suc n) (45 # 32 # rest) = None"
proof -
  have n: "scan_number (45 # 32 # rest) = None"
    by (simp add: scan_number_def int_part_def Let_def)
  show ?thesis by (simp add: u_def n)
qed

lemma decode_dash_space: "py_json_loads (45 # 32 # rest) = None"
proof -
  have f: "2 * length (45 # 32 # rest) + 2 = Suc (2 * length rest + 5)" by simp
  have s: "skip_ws (45 # 32 # rest) = 45 # 32 # rest"
    by (simp add: skip_ws_def json_ws_def)
  show ?thesis
    unfolding py_json_loads_def s f scan_value_dash_space by simp
qed

lemmas scan_value_numeral = scan_value.simps(2)[of "pred_numeral k" for k, folded numeral_eq_Suc]

lemmas scan_array_numeral = scan_array.simps(2)[of "pred_numeral k" for k, folded numeral_eq_Suc]

lemmas scan_string_numeral =
  scan_string.simps(2,3)[of "pred_numeral k" for k, folded numeral_eq_Suc]

lemma decode_PQ: "py_json_loads json_PQ = Some (PList [PStr (u ''P''), PStr (u ''Q'')])"
  by (simp add: py_json_loads_def json_PQ_def skip_ws_def json_ws_def u_def
      scan_value_numeral scan_array_numeral scan_string_numeral)

lemma decode_empty_array: "py_json_loads (u ''[]'') = Some (PList [])"
  by (simp add: py_json_loads_def skip_ws_def json_ws_def u_def
      scan_value_numeral scan_array_numeral scan_string_numeral)

lemma decode_dash_A: "py_json_loads (u ''- A'') = None"
  using decode_dash_space[of "u ''A''"] by (simp add: u_def)

lemma decode_bullets: "py_json_loads (u ''- A\<newline>- B\<newline>\<newline>- C'') = None"
  using decode_dash_space[of "u ''A\<newline>- B\<newline>\<newline>- C''"] by (simp add: u_def)

lemma decode_bullets_dashes: "py_json_loads (u ''- A\<newline>---\<newline>- B'') = None"
  using decode_dash_space[of "u ''A\<newline>---\<newline>- B''"] by (simp add: u_def)

lemma fallback_dash_A:
  "fallback_lines \<lparr>parsed = p, rtext = Some (u ''- A'')\<rparr> = [u ''A'']"
  by (simp add: fallback_lines_def text_or_empty_def string_eval)

lemma fallback_empty_array:
  "fallback_lines \<lparr>parsed = p, rtext = Some (u ''[]'')\<rparr> = [u ''[]'']"
  by (simp add: fallback_lines_def text_or_empty_def string_eval)

lemma fallback_bullets_dashes:
  "fallback_lines \<lparr>parsed = p, rtext = Some (u ''- A\<newline>---\<newline>- B'')\<rparr> =
     [u ''A'', [], u ''B'']"
  by (simp add: fallback_lines_def text_or_empty_def string_eval)

section \<open>The query of a pair: the order of the two replacements\<close>

text \<open>
  C1. The claim is that the query is the same whichever of the two replacements is
  applied first. It fails when a topic holds the other placeholder: for the template
  \<open>X\<close> and the topics \<open>x = Y\<close>, \<open>y = Z\<close>, replacing \<open>X\<close> first gives \<open>Z\<close> (the \<open>Y\<close> that
  came in with \<open>x\<close> is replaced in turn) and replacing \<open>Y\<close> first gives \<open>Y\<close>.
\<close>

theorem replacement_order_counterexample:
  "str_replace (u ''Y'') (u ''Z'') (str_replace (u ''X'') (u ''Y'') (u ''X'')) = u ''Z'' \<and>
   str_replace (u ''X'') (u ''Y'') (str_replace (u ''Y'') (u ''Z'') (u ''X'')) = u ''Y'' \<and>
   str_replace (u ''Y'') (u ''Z'') (str_replace (u ''X'') (u ''Y'') (u ''X'')) \<noteq>
   str_replace (u ''X'') (u ''Y'') (str_replace (u ''Y'') (u ''Z'') (u ''X''))"
  by (simp add: u_def)

text \<open>
  C1, amended. For every template, the two orders give the same query whenever the
  topic \<open>x\<close> holds no \<open>Y\<close> and the topic \<open>y\<close> holds no \<open>X\<close>.
\<close>

theorem replacement_order_irrelevant:
  assumes "of_char CHR ''Y'' \<notin> set x" and "of_char CHR ''X'' \<notin> set y"
  shows "str_replace (u ''Y'') y (str_replace (u ''X'') x t) =
         str_replace (u ''X'') x (str_replace (u ''Y'') y t)"
proof -
  from assms have "89 \<notin> set x" and "88 \<notin> set y" by simp_all
  then have "(\<lambda>c. if c = 88 then subst_char 89 y x else if c = 89 then y else [c]) =
        (\<lambda>c. if c = 89 then subst_char 88 x y else if c = 88 then x else [c :: nat])"
    by (auto simp: subst_char_absent fun_eq_iff)
  then have "build_query t x y = str_replace (u ''X'') x (str_replace (u ''Y'') y t)"
    by (simp add: build_query_charwise y_first_charwise)
  then show ?thesis by (simp add: build_query_def)
qed

text \<open>
  C1, an instance: the template \<open>In X, about Y\<close> with the topics \<open>Mfg\<close> and \<open>Cost\<close>.
\<close>

theorem replacement_order_irrelevant_witness:
  "of_char CHR ''Y'' \<notin> set (u ''Mfg'') \<and> of_char CHR ''X'' \<notin> set (u ''Cost'') \<and>
   str_replace (u ''Y'') (u ''Cost'') (str_replace (u ''X'') (u ''Mfg'') (u ''In X, about Y'')) =
   str_replace (u ''X'') (u ''Mfg'') (str_replace (u ''Y'') (u ''Cost'') (u ''In X, about Y''))"
proof -
  have x: "of_char CHR ''Y'' \<notin> set (u ''Mfg'')" by (simp add: u_def)
  have y: "of_char CHR ''X'' \<notin> set (u ''Cost'')" by (simp add: u_def)
  show ?thesis
    using x y replacement_order_irrelevant [OF x y, of "u ''In X, about Y''"] by simp
qed

section \<open>The generated lists: which tier answers\<close>




section \<open>The generated lists: an empty entry from the third tier\<close>


section \<open>The run: all pairs, in order\<close>



section \<open>The run: a failing backend call\<close>



section \<open>The guard against an empty list\<close>



section \<open>The manual lists\<close>

text \<open>
  C7. The manual list is made of the lines of the input whose trimmed form is not
  empty, each trimmed, in the order of the input. Every entry is a part of the input
  that is not empty, has no white space at either end and holds no line boundary. When
  the input is given as lines joined by a line boundary, each line a core between two
  runs of white space, the list is the list of the cores that are not empty, in order.
  The function is total, and it is idempotent: joining its result with newlines and
  resolving again gives the same list. The input of the three lines \<open> a b \<close>, two
  spaces, and \<open>x\<close> gives \<open>a b\<close> and \<open>x\<close>.
\<close>

theorem manual_list_trimmed_lines:
  "manual_list s = map strip (filter (\<lambda>ln. strip ln \<noteq> []) (splitlines s)) \<and>
   (\<forall>l \<in> set (manual_list s).
      l \<noteq> [] \<and> \<not> isspace (hd l) \<and> \<not> isspace (last l) \<and>
      (\<forall>c \<in> set l. \<not> is_linebreak c) \<and> sublist l s) \<and>
   (is_line_boundary sep \<and>
    (\<forall>(a, core, b) \<in> set ts.
        (\<forall>c \<in> set (a @ b). isspace c \<and> \<not> is_linebreak c) \<and>
        (\<forall>c \<in> set core. \<not> is_linebreak c) \<and>
        (core = [] \<or> (\<not> isspace (hd core) \<and> \<not> isspace (last core)))) \<longrightarrow>
    manual_list (str_join sep (map (\<lambda>(a, core, b). a @ core @ b) ts)) =
      filter (\<lambda>l. l \<noteq> []) (map (\<lambda>(a, core, b). core) ts)) \<and>
   manual_list (str_join (u ''\<newline>'') (manual_list s)) = manual_list s \<and>
   manual_list (u '' a b \<newline>  \<newline>x\<newline>'') = [u ''a b'', u ''x'']"
proof -
  have c1: "manual_list s = map strip (filter (\<lambda>ln. strip ln \<noteq> []) (splitlines s))"
    unfolding manual_list_def by (rule comprehension_filter_map)
  have c2: "\<forall>l \<in> set (manual_list s).
      l \<noteq> [] \<and> \<not> isspace (hd l) \<and> \<not> isspace (last l) \<and>
      (\<forall>c \<in> set l. \<not> is_linebreak c) \<and> sublist l s"
    using manual_list_entries manual_list_trimmed_ends sublist_manual_list by blast
  have c3: "is_line_boundary sep \<and>
    (\<forall>(a, core, b) \<in> set ts.
        (\<forall>c \<in> set (a @ b). isspace c \<and> \<not> is_linebreak c) \<and>
        (\<forall>c \<in> set core. \<not> is_linebreak c) \<and>
        (core = [] \<or> (\<not> isspace (hd core) \<and> \<not> isspace (last core)))) \<longrightarrow>
    manual_list (str_join sep (map (\<lambda>(a, core, b). a @ core @ b) ts)) =
      filter (\<lambda>l. l \<noteq> []) (map (\<lambda>(a, core, b). core) ts)"
    using manual_list_padded by blast
  have nl: "u ''\<newline>'' = [10]" by (simp add: u_def)
  have "splitlines (str_join [10] (manual_list s)) = manual_list s"
    by (rule splitlines_join) (use manual_list_entries in blast)
  then have "manual_list (str_join [10] (manual_list s)) =
      [strip l. l \<leftarrow> manual_list s, strip l \<noteq> []]"
    by (simp add: manual_list_def)
  also have "\<dots> = manual_list s"
    by (rule comprehension_fix) (use manual_list_entries in blast)
  finally have c4: "manual_list (str_join (u ''\<newline>'') (manual_list s)) = manual_list s"
    by (simp add: nl)
  have c5: "manual_list (u '' a b \<newline>  \<newline>x\<newline>'') = [u ''a b'', u ''x'']"
    by (simp add: manual_list_def splitlines_def u_def strip_def strip_with_def isspace_def
        is_linebreak_def)
  show ?thesis by (intro conjI c1 c2 c3 c4 c5)
qed

text \<open>
  C7, an instance: three lines, the second one blank.
\<close>

theorem manual_list_trimmed_lines_witness:
  "is_line_boundary (u ''\<newline>'') \<and>
   manual_list (u '' a b \<newline>  \<newline>x'') = [u ''a b'', u ''x''] \<and>
   \<not> isspace (hd (u ''a b'')) \<and> \<not> isspace (last (u ''x'')) \<and>
   sublist (u ''a b'') (u '' a b \<newline>  \<newline>x'')"
proof -
  let ?ts = "[(u '' '', u ''a b'', u '' ''), ([], [], u ''  ''), ([], u ''x'', [])]"
  let ?s = "u '' a b \<newline>  \<newline>x''"
  have sep: "is_line_boundary (u ''\<newline>'')"
    by (simp add: is_line_boundary_def is_linebreak_def u_def)
  have ts: "\<forall>(a, core, b) \<in> set ?ts.
        (\<forall>c \<in> set (a @ b). isspace c \<and> \<not> is_linebreak c) \<and>
        (\<forall>c \<in> set core. \<not> is_linebreak c) \<and>
        (core = [] \<or> (\<not> isspace (hd core) \<and> \<not> isspace (last core)))"
    by (simp add: u_def isspace_def is_linebreak_def)
  have s: "str_join (u ''\<newline>'') (map (\<lambda>(a, core, b). a @ core @ b) ?ts) = ?s"
    by (simp add: u_def)
  note inst = manual_list_trimmed_lines [of ?s "u ''\<newline>''" ?ts]
  from inst sep ts
  have "manual_list (str_join (u ''\<newline>'') (map (\<lambda>(a, core, b). a @ core @ b) ?ts)) =
      filter (\<lambda>l. l \<noteq> []) (map (\<lambda>(a, core, b). core) ?ts)"
    by blast
  then have m: "manual_list ?s = [u ''a b'', u ''x'']"
    unfolding s by (simp add: u_def)
  from inst have "\<forall>l \<in> set (manual_list ?s).
      l \<noteq> [] \<and> \<not> isspace (hd l) \<and> \<not> isspace (last l) \<and>
      (\<forall>c \<in> set l. \<not> is_linebreak c) \<and> sublist l ?s"
    by blast
  then have e: "\<not> isspace (hd (u ''a b'')) \<and> \<not> isspace (last (u ''x'')) \<and> sublist (u ''a b'') ?s"
    unfolding m by simp
  show ?thesis using sep m e by blast
qed

section \<open>The generated lists: the items of a decoded list\<close>



section \<open>The generated lists: the lines of the text\<close>



section \<open>The query of a pair: X first\<close>

text \<open>
  C10. The query is the template with \<open>X\<close> replaced first and \<open>Y\<close> second. Character by
  character: every \<open>X\<close> of the template becomes \<open>x\<close> with the \<open>Y\<close>s of \<open>x\<close> replaced by
  \<open>y\<close>, every \<open>Y\<close> of the template becomes \<open>y\<close> as it is (an \<open>X\<close> inside \<open>y\<close> stays), and
  every other character is kept. For the template \<open>X-Y\<close> and the topics \<open>aY\<close> and \<open>bX\<close>
  the query is \<open>abX-bX\<close>.
\<close>

theorem build_query_x_first:
  "build_query t x y = str_replace (u ''Y'') y (str_replace (u ''X'') x t) \<and>
   build_query t x y =
     concat (map (\<lambda>c. if c = of_char CHR ''X'' then subst_char (of_char CHR ''Y'') y x
                      else if c = of_char CHR ''Y'' then y else [c]) t) \<and>
   build_query (u ''X-Y'') (u ''aY'') (u ''bX'') = u ''abX-bX''"
proof -
  have "build_query (u ''X-Y'') (u ''aY'') (u ''bX'') = u ''abX-bX''"
    by (simp add: build_query_def u_def)
  moreover have "build_query t x y = str_replace (u ''Y'') y (str_replace (u ''X'') x t)"
    by (simp add: build_query_def)
  moreover have "build_query t x y =
     concat (map (\<lambda>c. if c = of_char CHR ''X'' then subst_char (of_char CHR ''Y'') y x
                      else if c = of_char CHR ''Y'' then y else [c]) t)"
  proof -
    have X: "of_char CHR ''X'' = (88::nat)" and Y: "of_char CHR ''Y'' = (89::nat)"
      by simp_all
    show ?thesis unfolding X Y by (rule build_query_charwise)
  qed
  ultimately show ?thesis by blast
qed

end
